theory Spec2Isabelle
  imports Main
begin

section \<open>Values\<close>

text \<open>
  The values that travel through a task: strings, \<^verbatim>\<open>Error\<close> objects
  (with their message) and arrays. An array slot is \<open>None\<close> while it is a hole, as the
  slots of \<^verbatim>\<open>Array(length)\<close> are before \<^verbatim>\<open>All\<close> fills them.
  A thrown value is any value; \<open>Inl e\<close> in a result says that \<open>e\<close> was thrown.
\<close>

datatype val = VStr string | VErr string | VArr "val option list"

fun join_comma :: "string list \<Rightarrow> string" where
  "join_comma [] = []"
| "join_comma [x] = x"
| "join_comma (x # y # ys) = x @ '','' @ join_comma (y # ys)"

text \<open>
  \<^verbatim>\<open>String(x)\<close>: a string is itself, an \<^verbatim>\<open>Error\<close> prints its name and
  message, an array joins its elements with commas, a hole printing as the empty string.
\<close>

fun String_js :: "val \<Rightarrow> string" where
  "String_js (VStr s) = s"
| "String_js (VErr m) = (if m = [] then ''Error'' else ''Error: '' @ m)"
| "String_js (VArr xs) =
     join_comma (map (\<lambda>x. case x of None \<Rightarrow> [] | Some v \<Rightarrow> String_js v) xs)"

section \<open>Tasks\<close>

text \<open>
  A leaf computation \<^verbatim>\<open>(handleSucc, handleFail) => ?Cancel\<close> is described by what
  it does while it runs: the calls it makes to its two callbacks, in order, and then
  either a throw (\<open>Inl e\<close>), or a return of nothing (\<open>Inr None\<close>) or of a cancel function
  (\<open>Inr (Some f)\<close>). The two callbacks stay with the computation, which may call them
  again later. The cancel function \<open>CancelFn k as thrown\<close> is code of the caller's too:
  when it is called, the call is recorded with the number \<open>k\<close>, it makes the calls \<open>as\<close>
  to the two callbacks of its computation, and then it returns, or throws \<open>e\<close> when
  \<open>thrown\<close> is \<open>Some e\<close>.
\<close>

datatype action = Succeed val | Fail val

datatype cancel_fn = CancelFn nat "action list" "val option"

datatype computation = Computation "action list" "val + cancel_fn option"

datatype task =
    FromComputation computation
  | Of val
  | Rejected val
  | Empty
  | All_t "task list"
  | Race "task list"
  | Map_t task "val \<Rightarrow> val + val"
  | MapRejected task "val \<Rightarrow> val + val"
  | Chain task "val \<Rightarrow> val + task"
  | OrElse task "val \<Rightarrow> val + task"

section \<open>Closures\<close>

datatype channel = OnSuccess | OnFailure | OnCatch

text \<open>
  Every function value of type \<^verbatim>\<open>Handler\<close>:
  \<^item> \<open>HNoop\<close> is \<^verbatim>\<open>noop\<close>, \<open>HDefaultFailure\<close> is \<^verbatim>\<open>defaultFailureHandler\<close>;
  \<^item> \<open>HUser ch thrown\<close> is a callback of the caller of \<^verbatim>\<open>run\<close>: the call is recorded with
    the channel \<open>ch\<close> and the argument \<open>x\<close>, and then it returns, or throws \<open>e\<close> when
    \<open>thrown x\<close> is \<open>Some e\<close>;
  \<^item> \<open>HSucceed g\<close>, \<open>HFail g\<close> and \<open>HCatch g\<close> are the callbacks
    \<^verbatim>\<open>x => { success(x); close() }\<close>, \<^verbatim>\<open>x => { failure(x); close() }\<close> and
    \<^verbatim>\<open>x => { catch_(x); close() }\<close> that \<^verbatim>\<open>safeRun\<close> and \<^verbatim>\<open>safeRun2\<close> pass
    to their body;
  \<^item> \<open>HMapSuccess fn h\<close> is \<^verbatim>\<open>success(x) { handlers.success(_fn(x)) }\<close> of \<^verbatim>\<open>Map\<close>, and
    \<open>HMapFailure\<close> its mirror in \<^verbatim>\<open>MapRejected\<close>;
  \<^item> \<open>HAllSuccess a index length success\<close> is the success handler \<^verbatim>\<open>All\<close> gives to the
    task at \<open>index\<close>, the variables \<^verbatim>\<open>values\<close> and \<^verbatim>\<open>completedCount\<close> being at \<open>a\<close>;
  \<^item> \<open>HChainSuccess fn c success failure catch_\<close> is the success handler \<^verbatim>\<open>Chain\<close> gives to
    its first task, and \<open>HOrElseFailure\<close> the failure handler \<^verbatim>\<open>OrElse\<close> gives to its
    first task.
\<close>

datatype handler =
    HNoop
  | HDefaultFailure
  | HUser channel "val \<Rightarrow> val option"
  | HSucceed nat
  | HFail nat
  | HCatch nat
  | HMapSuccess "val \<Rightarrow> val + val" handler
  | HMapFailure "val \<Rightarrow> val + val" handler
  | HAllSuccess nat nat nat handler
  | HChainSuccess "val \<Rightarrow> val + task" nat handler handler "handler option"
  | HOrElseFailure "val \<Rightarrow> val + task" nat handler handler

text \<open>
  Every function value of type \<^verbatim>\<open>Cancel\<close> the program builds or receives:
  \<^item> \<open>CNoop\<close> is \<^verbatim>\<open>noop\<close>;
  \<^item> \<open>CUser f success failure\<close> is the cancel function \<open>f\<close> that a leaf computation
    returned, the computation having been given the callbacks \<open>success\<close> and \<open>failure\<close>;
  \<^item> \<open>CHandle g\<close> is \<^verbatim>\<open>() => { cancel(); close() }\<close> of \<^verbatim>\<open>safeRun\<close>, and
    \<^verbatim>\<open>() => { onCancel(); close() }\<close> of \<^verbatim>\<open>safeRun2\<close>, for the call whose variables
    are at \<open>g\<close>;
  \<^item> \<open>CClose g\<close> and \<open>CClose2 g\<close> are the first value of the variable \<^verbatim>\<open>close\<close> in
    \<^verbatim>\<open>safeRun\<close> and in \<^verbatim>\<open>safeRun2\<close>;
  \<^item> \<open>CForEach cancels\<close> is \<^verbatim>\<open>onClose() { cancels.forEach(cancel => cancel()) }\<close> of
    \<^verbatim>\<open>All\<close> and \<^verbatim>\<open>Race\<close>;
  \<^item> \<open>CBoth cancel1 c\<close> is \<^verbatim>\<open>{ cancel1(); cancel2() }\<close> of \<^verbatim>\<open>Chain\<close> and
    \<^verbatim>\<open>OrElse\<close>, the variable \<^verbatim>\<open>cancel2\<close> being at \<open>c\<close>.
\<close>

datatype cancel =
    CNoop
  | CUser cancel_fn handler handler
  | CHandle nat
  | CClose nat
  | CClose2 nat
  | CForEach "cancel list"
  | CBoth cancel nat

text \<open>\<^verbatim>\<open>Handlers\<close> and \<^verbatim>\<open>LooseHandlers\<close>.\<close>

record handlers =
  success :: handler
  failure :: handler
  catch :: "handler option"

datatype loose_handlers =
    Bare handler
  | Loose "handler option" "handler option" "handler option"

section \<open>State\<close>

text \<open>
  The variables of one call of \<^verbatim>\<open>safeRun\<close> or \<^verbatim>\<open>safeRun2\<close>, which its closures
  share: the handlers (\<^verbatim>\<open>handlers\<close> in \<^verbatim>\<open>safeRun\<close>; \<^verbatim>\<open>success\<close>, \<^verbatim>\<open>failure\<close> and
  \<^verbatim>\<open>catch_\<close> in \<^verbatim>\<open>safeRun2\<close>), \<^verbatim>\<open>cancel\<close> (named \<^verbatim>\<open>onCancel\<close> in \<^verbatim>\<open>safeRun2\<close>),
  \<^verbatim>\<open>onClose\<close>, \<^verbatim>\<open>closed\<close> and \<^verbatim>\<open>close\<close>.
\<close>

record guard =
  g_success :: handler
  g_failure :: handler
  g_catch :: "handler option"
  g_cancel :: cancel
  g_onClose :: cancel
  g_closed :: bool
  g_close :: cancel

text \<open>The variables \<^verbatim>\<open>values\<close> and \<^verbatim>\<open>completedCount\<close> of one run of \<^verbatim>\<open>All\<close>.\<close>

record all_vars =
  values_a :: "val option list"
  completedCount :: nat

text \<open>
  What an observer sees: a callback of the caller was called, a cancel function of a leaf
  computation was called, an exception reached the caller of \<^verbatim>\<open>run\<close>, of the returned
  cancel function, or of a callback of a leaf computation.
\<close>

datatype obs = Fired channel val | Cleanup nat | Uncaught val

text \<open>
  The store: the variables of every call of \<^verbatim>\<open>safeRun\<close> and \<^verbatim>\<open>safeRun2\<close>, the variables
  \<^verbatim>\<open>cancel2\<close> of \<^verbatim>\<open>Chain\<close> and \<^verbatim>\<open>OrElse\<close>, the variables of \<^verbatim>\<open>All\<close>, the pair of
  callbacks each leaf computation was given, and what was observed so far.
\<close>

record state =
  guards :: "nat \<Rightarrow> guard"
  nguards :: nat
  cells :: "nat \<Rightarrow> cancel"
  ncells :: nat
  alls :: "nat \<Rightarrow> all_vars"
  nalls :: nat
  stash :: "(handler \<times> handler) list"
  log :: "obs list"

definition init :: state where
  "init = \<lparr>guards = (\<lambda>_. \<lparr>g_success = HNoop, g_failure = HNoop, g_catch = None,
              g_cancel = CNoop, g_onClose = CNoop, g_closed = True, g_close = CNoop\<rparr>),
            nguards = 0, cells = (\<lambda>_. CNoop), ncells = 0,
            alls = (\<lambda>_. \<lparr>values_a = [], completedCount = 0\<rparr>), nalls = 0,
            stash = [], log = []\<rparr>"

text \<open>
  A call either runs out of fuel (\<open>None\<close>), throws (\<open>Inl e\<close>) or returns (\<open>Inr a\<close>), in a
  new state.
\<close>

type_synonym 'a outcome = "((val + 'a) \<times> state) option"

definition and_then :: "'a outcome \<Rightarrow> ('a \<Rightarrow> state \<Rightarrow> 'b outcome) \<Rightarrow> 'b outcome" where
  "and_then m f = (case m of None \<Rightarrow> None
                   | Some (Inl e, s) \<Rightarrow> Some (Inl e, s)
                   | Some (Inr a, s) \<Rightarrow> f a s)"

definition try_catch :: "'a outcome \<Rightarrow> (val \<Rightarrow> state \<Rightarrow> 'a outcome) \<Rightarrow> 'a outcome" where
  "try_catch m h = (case m of None \<Rightarrow> None
                    | Some (Inl e, s) \<Rightarrow> h e s
                    | Some (Inr a, s) \<Rightarrow> Some (Inr a, s))"

section \<open>Calling every cancel function of an array\<close>

text \<open>
  \<^verbatim>\<open>cancels.forEach(cancel => cancel())\<close>, where \<open>call\<close> calls a function of type
  \<^verbatim>\<open>Cancel\<close>: an exception ends the loop.
\<close>

primrec for_each ::
  "(cancel \<Rightarrow> state \<Rightarrow> unit outcome) \<Rightarrow> cancel list \<Rightarrow> state \<Rightarrow> unit outcome" where
  "for_each call [] s = Some (Inr (), s)"
| "for_each call (c # cs) s = and_then (call c s) (\<lambda>_. for_each call cs)"

section \<open>The settlement guards\<close>

text \<open>
  What the body of \<^verbatim>\<open>safeRun\<close> returns: nothing, a function, or a record
  \<^verbatim>\<open>{cancel?: Cancel, onClose: Cancel}\<close>.
\<close>

datatype safeRun_return = RetNothing | RetFunction cancel | RetRecord "cancel option" cancel

text \<open>What the body of \<^verbatim>\<open>safeRun2\<close> returns: \<^verbatim>\<open>{onCancel?: Cancel, onClose?: Cancel}\<close>.\<close>

record safeRun2_return =
  onCancel :: "cancel option"
  onClose :: "cancel option"

definition or_noop :: "cancel option \<Rightarrow> cancel" where
  "or_noop c = (case c of None \<Rightarrow> CNoop | Some f \<Rightarrow> f)"

definition new_guard :: "handlers \<Rightarrow> cancel \<Rightarrow> state \<Rightarrow> state" where
  "new_guard hs cl s =
     s\<lparr>guards := (guards s)(nguards s :=
         \<lparr>g_success = success hs, g_failure = failure hs, g_catch = catch hs,
          g_cancel = CNoop, g_onClose = CNoop, g_closed = False, g_close = cl\<rparr>),
       nguards := Suc (nguards s)\<rparr>"

definition set_guard :: "nat \<Rightarrow> (guard \<Rightarrow> guard) \<Rightarrow> state \<Rightarrow> state" where
  "set_guard g f s = s\<lparr>guards := (guards s)(g := f (guards s g))\<rparr>"

definition safeRun ::
  "(cancel \<Rightarrow> state \<Rightarrow> unit outcome) \<Rightarrow> (handler \<Rightarrow> handler \<Rightarrow> state \<Rightarrow> safeRun_return outcome)
     \<Rightarrow> handlers \<Rightarrow> state \<Rightarrow> cancel outcome" where
  "safeRun call computation hs s =
     (let g = nguards s in
      and_then (computation (HSucceed g) (HFail g) (new_guard hs (CClose g) s))
        (\<lambda>computationReturn s1.
           let s2 = (case computationReturn of
                       RetNothing \<Rightarrow> s1
                     | RetFunction c \<Rightarrow> set_guard g (\<lambda>v. v\<lparr>g_cancel := c\<rparr>) s1
                     | RetRecord c oc \<Rightarrow>
                         set_guard g (\<lambda>v. v\<lparr>g_cancel := or_noop c, g_onClose := oc\<rparr>) s1)
           in if g_closed (guards s2 g)
              then (let s3 = set_guard g (\<lambda>v. v\<lparr>g_cancel := CNoop\<rparr>) s2
                    in and_then (call (g_onClose (guards s3 g)) s3)
                         (\<lambda>_ s4. Some (Inr (CHandle g), s4)))
              else Some (Inr (CHandle g), s2)))"

definition safeRun2 ::
  "(cancel \<Rightarrow> state \<Rightarrow> unit outcome)
     \<Rightarrow> (handler \<Rightarrow> handler \<Rightarrow> handler option \<Rightarrow> state \<Rightarrow> safeRun2_return outcome)
     \<Rightarrow> handlers \<Rightarrow> state \<Rightarrow> cancel outcome" where
  "safeRun2 call body hs s =
     (let g = nguards s in
      and_then (body (HSucceed g) (HFail g) (map_option (\<lambda>_. HCatch g) (catch hs))
                  (new_guard hs (CClose2 g) s))
        (\<lambda>bodyReturn s1.
           let s2 = set_guard g (\<lambda>v. v\<lparr>g_cancel := or_noop (onCancel bodyReturn),
                                       g_onClose := or_noop (onClose bodyReturn)\<rparr>) s1
           in if g_closed (guards s2 g)
              then (let s3 = set_guard g (\<lambda>v. v\<lparr>g_cancel := CNoop\<rparr>) s2
                    in and_then (call (g_onClose (guards s3 g)) s3)
                         (\<lambda>_ s4. Some (Inr (CHandle g), s4)))
              else Some (Inr (CHandle g), s2)))"

section \<open>Running a task\<close>

text \<open>
  \<^verbatim>\<open>defaultFailureHandler\<close> throws its argument when that is an \<^verbatim>\<open>Error\<close>, and
  \<^verbatim>\<open>new Error(String(failure))\<close> otherwise.
\<close>

definition defaultFailureHandler :: "val \<Rightarrow> val" where
  "defaultFailureHandler failure_v =
     (case failure_v of VErr m \<Rightarrow> VErr m | _ \<Rightarrow> VErr (String_js failure_v))"

text \<open>The handlers \<^verbatim>\<open>run\<close> builds from its argument.\<close>

definition handlers_of :: "loose_handlers \<Rightarrow> handlers" where
  "handlers_of h =
     (case h of
        Bare f \<Rightarrow> \<lparr>success = f, failure = HDefaultFailure, catch = None\<rparr>
      | Loose s f c \<Rightarrow>
          \<lparr>success = (case s of None \<Rightarrow> HNoop | Some x \<Rightarrow> x),
           failure = (case f of None \<Rightarrow> HDefaultFailure | Some x \<Rightarrow> x),
           catch = c\<rparr>)"

text \<open>
  A leaf computation runs: it keeps its two callbacks, makes its calls (an exception
  from a callback ends it, as it catches nothing), then throws or returns.
\<close>

primrec calls ::
  "(handler \<Rightarrow> val \<Rightarrow> state \<Rightarrow> unit outcome) \<Rightarrow> handler \<Rightarrow> handler \<Rightarrow> action list
     \<Rightarrow> state \<Rightarrow> unit outcome" where
  "calls call su fa [] s = Some (Inr (), s)"
| "calls call su fa (a # as) s =
     and_then (case a of Succeed x \<Rightarrow> call su x s | Fail x \<Rightarrow> call fa x s)
       (\<lambda>_. calls call su fa as)"

definition apply_computation ::
  "(handler \<Rightarrow> val \<Rightarrow> state \<Rightarrow> unit outcome) \<Rightarrow> computation \<Rightarrow> handler \<Rightarrow> handler
     \<Rightarrow> state \<Rightarrow> (cancel_fn option) outcome" where
  "apply_computation call cmp su fa s =
     (case cmp of Computation as fin \<Rightarrow>
        and_then (calls call su fa as (s\<lparr>stash := stash s @ [(su, fa)]\<rparr>))
          (\<lambda>_ s1. case fin of Inl e \<Rightarrow> Some (Inl e, s1) | Inr k \<Rightarrow> Some (Inr k, s1)))"

definition user_cancel :: "cancel_fn option \<Rightarrow> handler \<Rightarrow> handler \<Rightarrow> cancel" where
  "user_cancel k su fa = (case k of None \<Rightarrow> CNoop | Some f \<Rightarrow> CUser f su fa)"

text \<open>\<^verbatim>\<open>tasks.map(f)\<close>, where \<open>f\<close> has effects and may throw.\<close>

primrec map_tasks ::
  "(task \<Rightarrow> nat \<Rightarrow> state \<Rightarrow> cancel outcome) \<Rightarrow> task list \<Rightarrow> nat \<Rightarrow> state
     \<Rightarrow> (cancel list) outcome" where
  "map_tasks f [] i s = Some (Inr [], s)"
| "map_tasks f (t # ts) i s =
     and_then (f t i s)
       (\<lambda>c s1. and_then (map_tasks f ts (Suc i) s1) (\<lambda>cs s2. Some (Inr (c # cs), s2)))"

definition new_cell :: "state \<Rightarrow> state" where
  "new_cell s = s\<lparr>cells := (cells s)(ncells s := CNoop), ncells := Suc (ncells s)\<rparr>"

definition new_all :: "nat \<Rightarrow> state \<Rightarrow> state" where
  "new_all len s =
     s\<lparr>alls := (alls s)(nalls s := \<lparr>values_a = replicate len None, completedCount = 0\<rparr>),
       nalls := Suc (nalls s)\<rparr>"

text \<open>
  \<open>run\<close> is \<^verbatim>\<open>Task.run\<close> (which \<^verbatim>\<open>Empty\<close> overrides), \<open>run_impl\<close> is the method
  \<^verbatim>\<open>_run\<close> of each class, \<open>call_handler\<close> calls a function of type \<^verbatim>\<open>Handler\<close> and
  \<open>call_cancel\<close> one of type \<^verbatim>\<open>Cancel\<close>. The first argument bounds the depth of the
  calls. \<open>CClose g\<close> is the body of \<^verbatim>\<open>close\<close> in \<^verbatim>\<open>safeRun\<close>:
  \<^verbatim>\<open>onClose(); closed = true; handlers = noopHandlers; cancel = noop; close = noop\<close>
  (\<^verbatim>\<open>noopHandlers\<close> has no \<^verbatim>\<open>catch\<close>). \<open>CClose2 g\<close> is the one in \<^verbatim>\<open>safeRun2\<close>, where
  \<^verbatim>\<open>catch_ = catch_ && noop\<close>. In both, and in the returned
  \<^verbatim>\<open>() => { cancel(); close() }\<close>, an exception of the first call skips the rest.
\<close>

fun run :: "nat \<Rightarrow> task \<Rightarrow> loose_handlers \<Rightarrow> state \<Rightarrow> cancel outcome"
and run_impl :: "nat \<Rightarrow> task \<Rightarrow> handlers \<Rightarrow> state \<Rightarrow> cancel outcome"
and call_handler :: "nat \<Rightarrow> handler \<Rightarrow> val \<Rightarrow> state \<Rightarrow> unit outcome"
and call_cancel :: "nat \<Rightarrow> cancel \<Rightarrow> state \<Rightarrow> unit outcome" where
  "run 0 t h s = None"
| "run (Suc n) t h s =
     (case t of Empty \<Rightarrow> Some (Inr CNoop, s) | _ \<Rightarrow> run_impl n t (handlers_of h) s)"
| "run_impl 0 t hs s = None"
| "run_impl (Suc n) (FromComputation cmp) hs s =
     safeRun2 (call_cancel n) (\<lambda>su fa ca st.
        case ca of
          Some c \<Rightarrow>
            try_catch
              (and_then (apply_computation (call_handler n) cmp su fa st)
                 (\<lambda>cancel_r st1. Some (Inr \<lparr>onCancel = Some (user_cancel cancel_r su fa),
                                             onClose = None\<rparr>, st1)))
              (\<lambda>e st1. and_then (call_handler n c e st1)
                 (\<lambda>_ st2. Some (Inr \<lparr>onCancel = Some CNoop, onClose = None\<rparr>, st2)))
        | None \<Rightarrow>
            and_then (apply_computation (call_handler n) cmp su fa st)
              (\<lambda>cancel_r st1. Some (Inr \<lparr>onCancel = Some (user_cancel cancel_r su fa),
                                          onClose = None\<rparr>, st1))) hs s"
| "run_impl (Suc n) (Of v) hs s =
     and_then (call_handler n (success hs) v s) (\<lambda>_ s1. Some (Inr CNoop, s1))"
| "run_impl (Suc n) (Rejected e) hs s =
     and_then (call_handler n (failure hs) e s) (\<lambda>_ s1. Some (Inr CNoop, s1))"
| "run_impl (Suc n) Empty hs s =
     Some (Inl (VErr ''Method run() is not implemented in basic Task class.''), s)"
| "run_impl (Suc n) (All_t tasks) hs s =
     safeRun (call_cancel n) (\<lambda>su fa st.
        and_then
          (map_tasks (\<lambda>t index. run n t
               (Loose (Some (HAllSuccess (nalls st) index (length tasks) su)) (Some fa) None))
             tasks 0 (new_all (length tasks) st))
          (\<lambda>cancels st1. Some (Inr (RetRecord None (CForEach cancels)), st1))) hs s"
| "run_impl (Suc n) (Race tasks) hs s =
     safeRun (call_cancel n) (\<lambda>su fa st.
        and_then (map_tasks (\<lambda>t index. run n t (Loose (Some su) (Some fa) None)) tasks 0 st)
          (\<lambda>cancels st1. Some (Inr (RetRecord None (CForEach cancels)), st1))) hs s"
| "run_impl (Suc n) (Map_t t fn) hs s =
     run n t (Loose (Some (HMapSuccess fn (success hs))) (Some (failure hs)) None) s"
| "run_impl (Suc n) (MapRejected t fn) hs s =
     run n t (Loose (Some (success hs)) (Some (HMapFailure fn (failure hs))) None) s"
| "run_impl (Suc n) (Chain t fn) hs s =
     safeRun2 (call_cancel n) (\<lambda>su fa ca st.
        and_then (run n t (Loose (Some (HChainSuccess fn (ncells st) su fa ca)) (Some fa) ca)
                    (new_cell st))
          (\<lambda>cancel1 st1. Some (Inr \<lparr>onCancel = Some (CBoth cancel1 (ncells st)),
                                     onClose = None\<rparr>, st1))) hs s"
| "run_impl (Suc n) (OrElse t fn) hs s =
     safeRun (call_cancel n) (\<lambda>su fa st.
        and_then (run n t (Loose (Some su) (Some (HOrElseFailure fn (ncells st) su fa)) None)
                    (new_cell st))
          (\<lambda>cancel1 st1. Some (Inr (RetFunction (CBoth cancel1 (ncells st))), st1))) hs s"
| "call_handler 0 h x s = None"
| "call_handler (Suc n) HNoop x s = Some (Inr (), s)"
| "call_handler (Suc n) HDefaultFailure x s = Some (Inl (defaultFailureHandler x), s)"
| "call_handler (Suc n) (HUser ch thrown) x s =
     (case thrown x of
        None \<Rightarrow> Some (Inr (), s\<lparr>log := log s @ [Fired ch x]\<rparr>)
      | Some e \<Rightarrow> Some (Inl e, s\<lparr>log := log s @ [Fired ch x]\<rparr>))"
| "call_handler (Suc n) (HSucceed g) x s =
     and_then (call_handler n (g_success (guards s g)) x s)
       (\<lambda>_ s1. call_cancel n (g_close (guards s1 g)) s1)"
| "call_handler (Suc n) (HFail g) x s =
     and_then (call_handler n (g_failure (guards s g)) x s)
       (\<lambda>_ s1. call_cancel n (g_close (guards s1 g)) s1)"
| "call_handler (Suc n) (HCatch g) x s =
     and_then (case g_catch (guards s g) of
                 None \<Rightarrow> Some (Inl (VErr ''catch_ is not a function''), s)
               | Some c \<Rightarrow> call_handler n c x s)
       (\<lambda>_ s1. call_cancel n (g_close (guards s1 g)) s1)"
| "call_handler (Suc n) (HMapSuccess fn h) x s =
     (case fn x of Inl e \<Rightarrow> Some (Inl e, s) | Inr y \<Rightarrow> call_handler n h y s)"
| "call_handler (Suc n) (HMapFailure fn h) x s =
     (case fn x of Inl e \<Rightarrow> Some (Inl e, s) | Inr y \<Rightarrow> call_handler n h y s)"
| "call_handler (Suc n) (HAllSuccess a index len su) x s =
     (let v = alls s a;
          v1 = v\<lparr>values_a := (values_a v)[index := Some x],
                 completedCount := Suc (completedCount v)\<rparr>;
          s1 = s\<lparr>alls := (alls s)(a := v1)\<rparr>
      in if completedCount v1 = len then call_handler n su (VArr (values_a v1)) s1
         else Some (Inr (), s1))"
| "call_handler (Suc n) (HChainSuccess fn c su fa ca) x s =
     (case ca of
        Some catch_h \<Rightarrow>
          try_catch
            (case fn x of
               Inl e \<Rightarrow> Some (Inl e, s)
             | Inr t2 \<Rightarrow>
                 and_then (run n t2 (Loose (Some su) (Some fa) (Some catch_h)) s)
                   (\<lambda>cancel2 s1. Some (Inr (), s1\<lparr>cells := (cells s1)(c := cancel2)\<rparr>)))
            (\<lambda>e s1. call_handler n catch_h e s1)
      | None \<Rightarrow>
          (case fn x of
             Inl e \<Rightarrow> Some (Inl e, s)
           | Inr t2 \<Rightarrow>
               and_then (run n t2 (Loose (Some su) (Some fa) None) s)
                 (\<lambda>cancel2 s1. Some (Inr (), s1\<lparr>cells := (cells s1)(c := cancel2)\<rparr>))))"
| "call_handler (Suc n) (HOrElseFailure fn c su fa) x s =
     (case fn x of
        Inl e \<Rightarrow> Some (Inl e, s)
      | Inr t2 \<Rightarrow>
          and_then (run n t2 (Loose (Some su) (Some fa) None) s)
            (\<lambda>cancel2 s1. Some (Inr (), s1\<lparr>cells := (cells s1)(c := cancel2)\<rparr>)))"
| "call_cancel 0 c s = None"
| "call_cancel (Suc n) CNoop s = Some (Inr (), s)"
| "call_cancel (Suc n) (CUser (CancelFn k as thrown) su fa) s =
     and_then (calls (call_handler n) su fa as (s\<lparr>log := log s @ [Cleanup k]\<rparr>))
       (\<lambda>_ s1. case thrown of None \<Rightarrow> Some (Inr (), s1) | Some e \<Rightarrow> Some (Inl e, s1))"
| "call_cancel (Suc n) (CHandle g) s =
     and_then (call_cancel n (g_cancel (guards s g)) s)
       (\<lambda>_ s1. call_cancel n (g_close (guards s1 g)) s1)"
| "call_cancel (Suc n) (CClose g) s =
     and_then (call_cancel n (g_onClose (guards s g)) s)
       (\<lambda>_ s1. Some (Inr (), s1\<lparr>guards := (guards s1)(g := (guards s1 g)
          \<lparr>g_success := HNoop, g_failure := HNoop, g_catch := None,
           g_cancel := CNoop, g_closed := True, g_close := CNoop\<rparr>)\<rparr>))"
| "call_cancel (Suc n) (CClose2 g) s =
     and_then (call_cancel n (g_onClose (guards s g)) s)
       (\<lambda>_ s1. Some (Inr (), s1\<lparr>guards := (guards s1)(g := (guards s1 g)
          \<lparr>g_success := HNoop, g_failure := HNoop,
           g_catch := map_option (\<lambda>_. HNoop) (g_catch (guards s1 g)),
           g_cancel := CNoop, g_closed := True, g_close := CNoop\<rparr>)\<rparr>))"
| "call_cancel (Suc n) (CForEach cancels) s = for_each (call_cancel n) cancels s"
| "call_cancel (Suc n) (CBoth cancel1 c) s =
     and_then (call_cancel n cancel1 s) (\<lambda>_ s1. call_cancel n (cells s1 c) s1)"

section \<open>The world around a run\<close>

text \<open>
  After \<^verbatim>\<open>run\<close> has returned, the caller may call the cancel function it got, and a
  leaf computation may call the callbacks it kept: \<open>Settle k a\<close> is the \<open>k\<close>-th leaf
  computation that was started making the call \<open>a\<close>. An exception that such a call
  throws reaches whoever made the call, and is recorded.
\<close>

datatype event = Settle nat action | Cancel

definition uncaught :: "'a outcome \<Rightarrow> state option" where
  "uncaught m = (case m of None \<Rightarrow> None
                 | Some (Inl e, s) \<Rightarrow> Some (s\<lparr>log := log s @ [Uncaught e]\<rparr>)
                 | Some (Inr a, s) \<Rightarrow> Some s)"

fun event_step :: "nat \<Rightarrow> cancel option \<Rightarrow> event \<Rightarrow> state \<Rightarrow> state option" where
  "event_step n handle (Settle k a) s =
     (if k < length (stash s)
      then (case a of
              Succeed x \<Rightarrow> uncaught (call_handler n (fst (stash s ! k)) x s)
            | Fail x \<Rightarrow> uncaught (call_handler n (snd (stash s ! k)) x s))
      else Some s)"
| "event_step n handle Cancel s =
     (case handle of None \<Rightarrow> Some s | Some c \<Rightarrow> uncaught (call_cancel n c s))"

fun events :: "nat \<Rightarrow> cancel option \<Rightarrow> event list \<Rightarrow> state \<Rightarrow> state option" where
  "events n handle [] s = Some s"
| "events n handle (e # es) s = Option.bind (event_step n handle e s) (events n handle es)"

text \<open>
  A whole session: \<^verbatim>\<open>task.run(h)\<close> from the empty store, then the events. When
  \<^verbatim>\<open>run\<close> throws, the caller has no cancel function to call.
\<close>

definition session :: "nat \<Rightarrow> task \<Rightarrow> loose_handlers \<Rightarrow> event list \<Rightarrow> state option" where
  "session n t h es =
     (case run n t h init of
        None \<Rightarrow> None
      | Some (Inl e, s) \<Rightarrow> events n None es (s\<lparr>log := log s @ [Uncaught e]\<rparr>)
      | Some (Inr c, s) \<Rightarrow> events n (Some c) es s)"

section \<open>Guards keep their handlers until they are closed\<close>

text \<open>
  Between two stores, \<open>stable\<close>: a guard that exists in the first either is closed in
  the second, or was open and still has the handlers it had.
\<close>

definition stable :: "state \<Rightarrow> state \<Rightarrow> bool" where
  "stable s s' =
     (nguards s \<le> nguards s' \<and>
      (\<forall>g<nguards s. g_closed (guards s' g) \<or>
         (\<not> g_closed (guards s g) \<and>
          g_success (guards s' g) = g_success (guards s g) \<and>
          g_failure (guards s' g) = g_failure (guards s g) \<and>
          g_catch (guards s' g) = g_catch (guards s g))))"

definition keeps :: "state \<Rightarrow> 'a outcome \<Rightarrow> bool" where
  "keeps s m = (\<forall>r s'. m = Some (r, s') \<longrightarrow> stable s s')"

definition sever :: "nat \<Rightarrow> state \<Rightarrow> state" where
  "sever g s1 = s1\<lparr>guards := (guards s1)(g := (guards s1 g)
          \<lparr>g_success := HNoop, g_failure := HNoop, g_catch := None,
           g_cancel := CNoop, g_closed := True, g_close := CNoop\<rparr>)\<rparr>"

definition sever2 :: "nat \<Rightarrow> state \<Rightarrow> state" where
  "sever2 g s1 = s1\<lparr>guards := (guards s1)(g := (guards s1 g)
          \<lparr>g_success := HNoop, g_failure := HNoop,
           g_catch := map_option (\<lambda>_. HNoop) (g_catch (guards s1 g)),
           g_cancel := CNoop, g_closed := True, g_close := CNoop\<rparr>)\<rparr>"

section \<open>Handlers that hold no callback of some channels\<close>

text \<open>
  The predicates below speak about a set \<open>T\<close> of channels of the caller. A handler is
  \<open>mute\<close> when it holds no callback of the caller on a channel of \<open>T\<close>; so is a cancel
  function when the callbacks it holds are mute, and a store when everything in it is.
  \<open>fired T s\<close> are the calls of the caller's callbacks on the channels of \<open>T\<close> so far.
\<close>

fun is_fire :: "(channel \<Rightarrow> bool) \<Rightarrow> obs \<Rightarrow> bool" where
  "is_fire T (Fired ch x) = T ch"
| "is_fire T (Cleanup k) = False"
| "is_fire T (Uncaught e) = False"

definition fired :: "(channel \<Rightarrow> bool) \<Rightarrow> state \<Rightarrow> obs list" where
  "fired T s = filter (is_fire T) (log s)"

definition fires :: "(channel \<Rightarrow> bool) \<Rightarrow> state \<Rightarrow> nat" where
  "fires T s = length (fired T s)"

fun mute :: "(channel \<Rightarrow> bool) \<Rightarrow> handler \<Rightarrow> bool" where
  "mute T HNoop = True"
| "mute T HDefaultFailure = True"
| "mute T (HUser ch thrown) = (\<not> T ch)"
| "mute T (HSucceed g) = True"
| "mute T (HFail g) = True"
| "mute T (HCatch g) = True"
| "mute T (HMapSuccess fn h) = mute T h"
| "mute T (HMapFailure fn h) = mute T h"
| "mute T (HAllSuccess a i len su) = mute T su"
| "mute T (HChainSuccess fn c su fa ca) =
     (mute T su \<and> mute T fa \<and> (case ca of None \<Rightarrow> True | Some h \<Rightarrow> mute T h))"
| "mute T (HOrElseFailure fn c su fa) = (mute T su \<and> mute T fa)"

definition mute_opt :: "(channel \<Rightarrow> bool) \<Rightarrow> handler option \<Rightarrow> bool" where
  "mute_opt T c = (case c of None \<Rightarrow> True | Some h \<Rightarrow> mute T h)"

fun mute_cancel :: "(channel \<Rightarrow> bool) \<Rightarrow> cancel \<Rightarrow> bool" where
  "mute_cancel T (CUser f su fa) = (mute T su \<and> mute T fa)"
| "mute_cancel T (CForEach cs) = (\<forall>c \<in> set cs. mute_cancel T c)"
| "mute_cancel T (CBoth c k) = mute_cancel T c"
| "mute_cancel T c = True"

definition mute_guard :: "(channel \<Rightarrow> bool) \<Rightarrow> guard \<Rightarrow> bool" where
  "mute_guard T v =
     (mute T (g_success v) \<and> mute T (g_failure v) \<and> mute_opt T (g_catch v) \<and>
      mute_cancel T (g_cancel v) \<and> mute_cancel T (g_onClose v) \<and> mute_cancel T (g_close v))"

definition mute_store :: "(channel \<Rightarrow> bool) \<Rightarrow> state \<Rightarrow> bool" where
  "mute_store T s =
     ((\<forall>g. mute_guard T (guards s g)) \<and> (\<forall>c. mute_cancel T (cells s c)) \<and>
      (\<forall>p \<in> set (stash s). mute T (fst p) \<and> mute T (snd p)))"

fun mute_loose :: "(channel \<Rightarrow> bool) \<Rightarrow> loose_handlers \<Rightarrow> bool" where
  "mute_loose T (Bare f) = mute T f"
| "mute_loose T (Loose su fa ca) = (mute_opt T su \<and> mute_opt T fa \<and> mute_opt T ca)"

definition mute_hs :: "(channel \<Rightarrow> bool) \<Rightarrow> handlers \<Rightarrow> bool" where
  "mute_hs T hs = (mute T (success hs) \<and> mute T (failure hs) \<and> mute_opt T (catch hs))"

text \<open>
  \<open>quiet T P s m\<close>: when the call \<open>m\<close>, made in the store \<open>s\<close>, ends, the store is mute,
  no callback on a channel of \<open>T\<close> was called, and what it returned satisfies \<open>P\<close>.
\<close>

definition quiet ::
  "(channel \<Rightarrow> bool) \<Rightarrow> ('a \<Rightarrow> bool) \<Rightarrow> state \<Rightarrow> 'a outcome \<Rightarrow> bool" where
  "quiet T P s m =
     (\<forall>r s'. m = Some (r, s') \<longrightarrow>
        mute_store T s' \<and> fired T s' = fired T s \<and> (\<forall>a. r = Inr a \<longrightarrow> P a))"


definition defects :: "channel \<Rightarrow> bool" where
  "defects ch = (ch = OnCatch)"

text \<open>
  The arguments of \<^verbatim>\<open>run\<close> made of callbacks of the caller: a bare success callback, or
  a record whose fields, where present, are a callback of the caller of that channel.
\<close>

fun callbacks :: "loose_handlers \<Rightarrow> bool" where
  "callbacks (Bare f) = (\<exists>thrown. f = HUser OnSuccess thrown)"
| "callbacks (Loose su fa ca) =
     ((su = None \<or> (\<exists>thrown. su = Some (HUser OnSuccess thrown))) \<and>
      (fa = None \<or> (\<exists>thrown. fa = Some (HUser OnFailure thrown))) \<and>
      (ca = None \<or> (\<exists>thrown. ca = Some (HUser OnCatch thrown))))"

section \<open>Well-behaved code of the caller\<close>

text \<open>
  \<open>returns\<close> is a callback of the caller that returns, whatever its argument, and
  \<open>throws e\<close> one that throws \<open>e\<close>. \<open>plain k\<close>
  is a cancel function that only records that it was called: it calls no callback and
  returns. \<open>later k\<close> is a leaf computation that calls nothing while it is started, and
  returns the cancel function \<open>k\<close> (or nothing): it settles later, if at all.
\<close>

definition returns :: "val \<Rightarrow> val option" where
  "returns x = None"


definition plain :: "nat \<Rightarrow> cancel_fn" where
  "plain k = CancelFn k [] None"

definition plain_cancel :: "handler \<Rightarrow> handler \<Rightarrow> nat \<Rightarrow> cancel" where
  "plain_cancel su fa k = CUser (plain k) su fa"

definition cleanup_log :: "nat option \<Rightarrow> obs list" where
  "cleanup_log k = (case k of None \<Rightarrow> [] | Some i \<Rightarrow> [Cleanup i])"


section \<open>Invariants of the store under well-behaved code of the caller\<close>

text \<open>
  A cancel function of a leaf computation is \<open>tame\<close> when it calls no callback and does not
  throw; a task is tame when the cancel functions of its leaf computations are, also in
  the tasks its continuations return; a function of type \<^verbatim>\<open>Cancel\<close> is tame when the
  cancel functions of leaf computations it holds are.
\<close>

fun tame_fn :: "cancel_fn \<Rightarrow> bool" where
  "tame_fn (CancelFn k as thrown) = (as = [] \<and> thrown = None)"

fun tame_computation :: "computation \<Rightarrow> bool" where
  "tame_computation (Computation as fin) =
     (case fin of Inr (Some f) \<Rightarrow> tame_fn f | _ \<Rightarrow> True)"

primrec tame :: "task \<Rightarrow> bool" where
  "tame (FromComputation cmp) = tame_computation cmp"
| "tame (Of v) = True"
| "tame (Rejected e) = True"
| "tame Empty = True"
| "tame (All_t ts) = list_all tame ts"
| "tame (Race ts) = list_all tame ts"
| "tame (Map_t t fn) = tame t"
| "tame (MapRejected t fn) = tame t"
| "tame (Chain t fn) = (tame t \<and> (\<forall>x. pred_sum (\<lambda>_. True) tame (fn x)))"
| "tame (OrElse t fn) = (tame t \<and> (\<forall>x. pred_sum (\<lambda>_. True) tame (fn x)))"

fun tame_cancel :: "cancel \<Rightarrow> bool" where
  "tame_cancel (CUser f su fa) = tame_fn f"
| "tame_cancel (CForEach cs) = (\<forall>c \<in> set cs. tame_cancel c)"
| "tame_cancel (CBoth c k) = tame_cancel c"
| "tame_cancel c = True"

text \<open>
  A handler is \<open>direct\<close> when calling it calls a callback of the caller on a channel of
  \<open>T\<close> with no guard in between (and, when \<open>R\<close> is set, the callback returns); it is \<open>clean\<close> when it holds no
  callback of the caller on a channel of \<open>T\<close> and its continuations return tame tasks. A
  guard is \<open>live\<close> when one of its handlers is direct.
\<close>

fun direct :: "bool \<Rightarrow> (channel \<Rightarrow> bool) \<Rightarrow> handler \<Rightarrow> bool" where
  "direct R T (HUser ch thrown) = (T ch \<and> (R \<longrightarrow> (\<forall>x. thrown x = None)))"
| "direct R T (HMapSuccess fn h) = direct R T h"
| "direct R T (HMapFailure fn h) = direct R T h"
| "direct R T h = False"

fun clean :: "(channel \<Rightarrow> bool) \<Rightarrow> handler \<Rightarrow> bool" where
  "clean T HNoop = True"
| "clean T HDefaultFailure = True"
| "clean T (HUser ch thrown) = (\<not> T ch)"
| "clean T (HSucceed g) = True"
| "clean T (HFail g) = True"
| "clean T (HCatch g) = True"
| "clean T (HMapSuccess fn h) = clean T h"
| "clean T (HMapFailure fn h) = clean T h"
| "clean T (HAllSuccess a i len su) = clean T su"
| "clean T (HChainSuccess fn c su fa ca) =
     (clean T su \<and> clean T fa \<and> (case ca of None \<Rightarrow> True | Some h \<Rightarrow> clean T h) \<and>
      (\<forall>x. pred_sum (\<lambda>_. True) tame (fn x)))"
| "clean T (HOrElseFailure fn c su fa) =
     (clean T su \<and> clean T fa \<and> (\<forall>x. pred_sum (\<lambda>_. True) tame (fn x)))"

definition dc :: "bool \<Rightarrow> (channel \<Rightarrow> bool) \<Rightarrow> handler \<Rightarrow> bool" where
  "dc R T h = (direct R T h \<or> clean T h)"

definition direct_opt :: "bool \<Rightarrow> (channel \<Rightarrow> bool) \<Rightarrow> handler option \<Rightarrow> bool" where
  "direct_opt R T c = (case c of None \<Rightarrow> False | Some h \<Rightarrow> direct R T h)"

definition clean_opt :: "(channel \<Rightarrow> bool) \<Rightarrow> handler option \<Rightarrow> bool" where
  "clean_opt T c = (case c of None \<Rightarrow> True | Some h \<Rightarrow> clean T h)"

definition dc_opt :: "bool \<Rightarrow> (channel \<Rightarrow> bool) \<Rightarrow> handler option \<Rightarrow> bool" where
  "dc_opt R T c = (case c of None \<Rightarrow> True | Some h \<Rightarrow> dc R T h)"

definition live_guard :: "bool \<Rightarrow> (channel \<Rightarrow> bool) \<Rightarrow> guard \<Rightarrow> bool" where
  "live_guard R T v = (direct R T (g_success v) \<or> direct R T (g_failure v) \<or> direct_opt R T (g_catch v))"

definition live :: "bool \<Rightarrow> (channel \<Rightarrow> bool) \<Rightarrow> state \<Rightarrow> nat \<Rightarrow> bool" where
  "live R T s g = live_guard R T (guards s g)"

definition guard_ok :: "bool \<Rightarrow> (channel \<Rightarrow> bool) \<Rightarrow> nat \<Rightarrow> guard \<Rightarrow> bool" where
  "guard_ok R T g v =
     (dc R T (g_success v) \<and> dc R T (g_failure v) \<and> dc_opt R T (g_catch v) \<and>
      tame_cancel (g_cancel v) \<and> tame_cancel (g_onClose v) \<and>
      (if g_closed v then g_close v = CNoop \<and> g_cancel v = CNoop \<and> \<not> live_guard R T v
       else g_close v = CClose g \<or> g_close v = CClose2 g))"

definition ok :: "bool \<Rightarrow> (channel \<Rightarrow> bool) \<Rightarrow> state \<Rightarrow> bool" where
  "ok R T s = ((\<forall>g. guard_ok R T g (guards s g)) \<and>
             (\<forall>g g'. live R T s g \<longrightarrow> live R T s g' \<longrightarrow> g = g') \<and>
             (\<forall>p \<in> set (stash s). clean T (fst p) \<and> clean T (snd p)) \<and>
             (\<forall>c. tame_cancel (cells s c)))"

definition budget :: "bool \<Rightarrow> (channel \<Rightarrow> bool) \<Rightarrow> state \<Rightarrow> nat" where
  "budget R T s = fires T s + (if \<exists>g. live R T s g then 1 else 0)"

definition evolves :: "bool \<Rightarrow> (channel \<Rightarrow> bool) \<Rightarrow> state \<Rightarrow> state \<Rightarrow> bool" where
  "evolves R T s s' = (ok R T s' \<and> (\<forall>g. live R T s' g \<longrightarrow> live R T s g) \<and>
                fires T s \<le> fires T s' \<and> (R \<longrightarrow> budget R T s' \<le> budget R T s) \<and>
                ((\<forall>g. \<not> live R T s g) \<longrightarrow> fires T s' \<le> fires T s))"

definition pres :: "bool \<Rightarrow> (channel \<Rightarrow> bool) \<Rightarrow> state \<Rightarrow> 'a outcome \<Rightarrow> bool" where
  "pres R T s m = (\<forall>r s'. m = Some (r, s') \<longrightarrow> evolves R T s s')"










section \<open>Lemmas\<close>

lemma and_then_simps [simp]:
  "and_then None f = None"
  "and_then (Some (Inl e, s)) f = Some (Inl e, s)"
  "and_then (Some (Inr a, s)) f = f a s"
  by (simp_all add: and_then_def)

lemma try_catch_simps [simp]:
  "try_catch None h = None"
  "try_catch (Some (Inl e, s)) h = h e s"
  "try_catch (Some (Inr a, s)) h = Some (Inr a, s)"
  by (simp_all add: try_catch_def)

lemma stable_refl [simp]: "stable s s"
  by (simp add: stable_def)







lemma keepsD: "keeps s m \<Longrightarrow> m = Some (r, s') \<Longrightarrow> stable s s'"
  by (simp add: keeps_def)

lemma keeps_None [simp]: "keeps s None"
  by (simp add: keeps_def)

lemma keeps_Some [simp]: "keeps s (Some (r, s')) = stable s s'"
  by (simp add: keeps_def)

















lemma quietI:
  "(\<And>r s'. m = Some (r, s') \<Longrightarrow>
      mute_store T s' \<and> fired T s' = fired T s \<and> (\<forall>a. r = Inr a \<longrightarrow> P a)) \<Longrightarrow> quiet T P s m"
  by (simp add: quiet_def)

lemma quiet_None [simp]: "quiet T P s None"
  by (simp add: quiet_def)

lemma quiet_Some [simp]:
  "quiet T P s (Some (r, s')) =
     (mute_store T s' \<and> fired T s' = fired T s \<and> (\<forall>a. r = Inr a \<longrightarrow> P a))"
  by (simp add: quiet_def)

lemma quiet_weaken: "quiet T P s m \<Longrightarrow> (\<And>a. P a \<Longrightarrow> Q a) \<Longrightarrow> quiet T Q s m"
  by (auto simp: quiet_def)

lemma quiet_from:
  "mute_store T s1 \<Longrightarrow> fired T s1 = fired T s \<Longrightarrow> quiet T P s1 m \<Longrightarrow> quiet T P s m"
  by (auto simp: quiet_def)

lemma quiet_and_then:
  assumes "quiet T P s m" and "\<And>a s1. P a \<Longrightarrow> mute_store T s1 \<Longrightarrow> quiet T Q s1 (f a s1)"
  shows "quiet T Q s (and_then m f)"
proof (rule quietI)
  fix r s' assume a: "and_then m f = Some (r, s')"
  show "mute_store T s' \<and> fired T s' = fired T s \<and> (\<forall>a. r = Inr a \<longrightarrow> Q a)"
  proof (cases m)
    case None
    with a show ?thesis by simp
  next
    case (Some p)
    obtain q s1 where p: "p = (q, s1)" by (cases p)
    have e1: "mute_store T s1" "fired T s1 = fired T s" "\<And>b. q = Inr b \<Longrightarrow> P b"
      using assms(1) Some p by (simp_all add: quiet_def)
    show ?thesis
    proof (cases q)
      case (Inl e)
      with a Some p e1 show ?thesis by auto
    next
      case (Inr b)
      with a Some p have "f b s1 = Some (r, s')" by simp
      with assms(2)[OF e1(3)[OF Inr] e1(1)] e1(2) show ?thesis by (simp add: quiet_def)
    qed
  qed
qed

lemma quiet_try_catch:
  assumes "quiet T P s m" and "\<And>e s1. mute_store T s1 \<Longrightarrow> quiet T P s1 (h e s1)"
  shows "quiet T P s (try_catch m h)"
proof (rule quietI)
  fix r s' assume a: "try_catch m h = Some (r, s')"
  show "mute_store T s' \<and> fired T s' = fired T s \<and> (\<forall>a. r = Inr a \<longrightarrow> P a)"
  proof (cases m)
    case None
    with a show ?thesis by simp
  next
    case (Some p)
    obtain q s1 where p: "p = (q, s1)" by (cases p)
    have e1: "mute_store T s1" "fired T s1 = fired T s" "\<And>b. q = Inr b \<Longrightarrow> P b"
      using assms(1) Some p by (simp_all add: quiet_def)
    show ?thesis
    proof (cases q)
      case (Inr b)
      with a Some p e1 show ?thesis by simp
    next
      case (Inl e)
      with a Some p have "h e s1 = Some (r, s')" by simp
      with assms(2)[OF e1(1)] e1(2) show ?thesis by (simp add: quiet_def)
    qed
  qed
qed

lemma quiet_for_each:
  assumes "\<And>c s1. mute_cancel T c \<Longrightarrow> mute_store T s1 \<Longrightarrow> quiet T (\<lambda>_. True) s1 (call c s1)"
  shows "\<forall>c \<in> set cs. mute_cancel T c \<Longrightarrow> mute_store T s \<Longrightarrow>
         quiet T (\<lambda>_. True) s (for_each call cs s)"
proof (induction cs arbitrary: s)
  case Nil
  then show ?case by simp
next
  case (Cons c cs)
  have "quiet T (\<lambda>_. True) s (call c s)" using Cons.prems by (intro assms) simp_all
  then show ?case unfolding for_each.simps
    by (rule quiet_and_then) (rule Cons.IH, use Cons.prems in simp_all)
qed

lemma quiet_map_tasks:
  assumes "\<And>t i s1. mute_store T s1 \<Longrightarrow> quiet T (mute_cancel T) s1 (f t i s1)"
  shows "mute_store T s \<Longrightarrow> quiet T (\<lambda>cs. \<forall>c \<in> set cs. mute_cancel T c) s (map_tasks f ts i s)"
proof (induction ts arbitrary: i s)
  case Nil
  then show ?case by simp
next
  case (Cons t ts)
  have "quiet T (\<lambda>cs. \<forall>c \<in> set cs. mute_cancel T c) s1
          (and_then (map_tasks f ts (Suc i) s1) (\<lambda>cs s2. Some (Inr (c # cs), s2)))"
    if "mute_cancel T c" "mute_store T s1" for c s1
    by (rule quiet_and_then, rule Cons.IH, rule that) (use that in simp)
  then show ?case unfolding map_tasks.simps
    by (rule quiet_and_then[OF assms[OF Cons.prems]])
qed

lemma quiet_calls:
  assumes "\<And>h x s1. mute T h \<Longrightarrow> mute_store T s1 \<Longrightarrow> quiet T (\<lambda>_. True) s1 (call h x s1)"
    and "mute T su" "mute T fa"
  shows "mute_store T s \<Longrightarrow> quiet T (\<lambda>_. True) s (calls call su fa as s)"
proof (induction as arbitrary: s)
  case Nil
  then show ?case by simp
next
  case (Cons a as)
  have "quiet T (\<lambda>_. True) s (case a of Succeed x \<Rightarrow> call su x s | Fail x \<Rightarrow> call fa x s)"
    by (cases a) (simp_all add: assms Cons.prems)
  then show ?case unfolding calls.simps
    by (rule quiet_and_then) (rule Cons.IH)
qed

lemma mute_store_fields [simp]:
  "mute_store T (s\<lparr>log := l\<rparr>) = mute_store T s"
  "mute_store T (s\<lparr>alls := a\<rparr>) = mute_store T s"
  by (simp_all add: mute_store_def)

lemma fired_fields [simp]:
  "fired T (s\<lparr>alls := a\<rparr>) = fired T s" "fired T (s\<lparr>stash := st\<rparr>) = fired T s"
  "fired T (s\<lparr>cells := c\<rparr>) = fired T s" "fired T (s\<lparr>guards := gs\<rparr>) = fired T s"
  "fired T (s\<lparr>log := log s @ [Cleanup k]\<rparr>) = fired T s"
  "fired T (s\<lparr>log := log s @ [Uncaught e]\<rparr>) = fired T s"
  "fired T (s\<lparr>log := log s @ [Fired ch x]\<rparr>) = (if T ch then fired T s @ [Fired ch x] else fired T s)"
  by (simp_all add: fired_def)

lemma mute_store_stash:
  "mute_store T s \<Longrightarrow> mute T su \<Longrightarrow> mute T fa \<Longrightarrow> mute_store T (s\<lparr>stash := stash s @ [(su, fa)]\<rparr>)"
  by (simp add: mute_store_def)

lemma mute_store_cells:
  "mute_store T s \<Longrightarrow> mute_cancel T c \<Longrightarrow> mute_store T (s\<lparr>cells := (cells s)(k := c)\<rparr>)"
  by (simp add: mute_store_def)

lemma mute_store_new:
  "mute_store T s \<Longrightarrow> mute_store T (new_all len s)"
  "mute_store T s \<Longrightarrow> mute_store T (new_cell s)"
  "mute_store T s \<Longrightarrow> mute_hs T hs \<Longrightarrow> mute_cancel T cl \<Longrightarrow> mute_store T (new_guard hs cl s)"
  by (simp_all add: mute_store_def new_all_def new_cell_def new_guard_def mute_guard_def mute_hs_def)

lemma fired_new [simp]:
  "fired T (new_all len s) = fired T s" "fired T (new_cell s) = fired T s"
  "fired T (new_guard hs cl s) = fired T s" "fired T (set_guard g f s) = fired T s"
  "fired T (sever g s) = fired T s" "fired T (sever2 g s) = fired T s"
  by (simp_all add: fired_def new_all_def new_cell_def new_guard_def set_guard_def sever_def sever2_def)

lemma mute_store_sever:
  "mute_store T s \<Longrightarrow> mute_store T (sever g s)" "mute_store T s \<Longrightarrow> mute_store T (sever2 g s)"
  by (auto simp: mute_store_def sever_def sever2_def mute_guard_def mute_opt_def split: option.splits)

lemma mute_store_set_guard:
  assumes "mute_store T s" and "mute_guard T (guards s g) \<Longrightarrow> mute_guard T (f (guards s g))"
  shows "mute_store T (set_guard g f s)"
  using assms by (simp add: mute_store_def set_guard_def)

lemma mute_store_guard: "mute_store T s \<Longrightarrow> mute_guard T (guards s g)"
  by (simp add: mute_store_def)

lemma quiet_apply_computation:
  assumes c: "\<And>h x s1. mute T h \<Longrightarrow> mute_store T s1 \<Longrightarrow> quiet T (\<lambda>_. True) s1 (call h x s1)"
    and m: "mute T su" "mute T fa" and s: "mute_store T s"
  shows "quiet T (\<lambda>_. True) s (apply_computation call cmp su fa s)"
proof -
  obtain as fin where cmp: "cmp = Computation as fin" by (cases cmp)
  let ?s0 = "s\<lparr>stash := stash s @ [(su, fa)]\<rparr>"
  have s0: "mute_store T ?s0" using s m by (rule mute_store_stash)
  have k: "quiet T (\<lambda>_. True) ?s0 (calls call su fa as ?s0)"
    using c m s0 by (rule quiet_calls)
  have "quiet T (\<lambda>_. True) ?s0 (and_then (calls call su fa as ?s0)
          (\<lambda>_ s1. case fin of Inl e \<Rightarrow> Some (Inl e, s1) | Inr k \<Rightarrow> Some (Inr k, s1)))"
  proof (rule quiet_and_then[OF k])
    fix a s1 assume "mute_store T s1"
    then show "quiet T (\<lambda>_. True) s1
        (case fin of Inl e \<Rightarrow> Some (Inl e, s1) | Inr k \<Rightarrow> Some (Inr k, s1))"
      by (cases fin) simp_all
  qed
  then have "quiet T (\<lambda>_. True) s (and_then (calls call su fa as ?s0)
          (\<lambda>_ s1. case fin of Inl e \<Rightarrow> Some (Inl e, s1) | Inr k \<Rightarrow> Some (Inr k, s1)))"
    by (rule quiet_from[OF s0, rotated]) simp
  then show ?thesis unfolding apply_computation_def cmp by simp
qed

lemma quiet_finish:
  assumes call: "\<And>c s1. mute_cancel T c \<Longrightarrow> mute_store T s1 \<Longrightarrow> quiet T (\<lambda>_. True) s1 (call c s1)"
    and s2: "mute_store T s2" and f: "fired T s2 = fired T s1"
  shows "quiet T (mute_cancel T) s1 (if g_closed (guards s2 g)
              then (let s3 = set_guard g (\<lambda>v. v\<lparr>g_cancel := CNoop\<rparr>) s2
                    in and_then (call (g_onClose (guards s3 g)) s3)
                         (\<lambda>_ s4. Some (Inr (CHandle g), s4)))
              else Some (Inr (CHandle g), s2))"
proof (cases "g_closed (guards s2 g)")
  case True
  let ?s3 = "set_guard g (\<lambda>v. v\<lparr>g_cancel := CNoop\<rparr>) s2"
  have s3: "mute_store T ?s3"
    using s2 by (rule mute_store_set_guard) (simp add: mute_guard_def)
  have "mute_cancel T (g_onClose (guards ?s3 g))"
    using mute_store_guard[OF s3, of g] by (simp add: mute_guard_def)
  then have "quiet T (\<lambda>_. True) ?s3 (call (g_onClose (guards ?s3 g)) ?s3)"
    using s3 by (rule call)
  then have "quiet T (mute_cancel T) ?s3 (and_then (call (g_onClose (guards ?s3 g)) ?s3)
                         (\<lambda>_ s4. Some (Inr (CHandle g), s4)))"
    by (rule quiet_and_then) simp
  then have "quiet T (mute_cancel T) s1 (and_then (call (g_onClose (guards ?s3 g)) ?s3)
                         (\<lambda>_ s4. Some (Inr (CHandle g), s4)))"
    by (rule quiet_from[OF s3, rotated]) (simp add: f)
  then show ?thesis using True by (simp add: Let_def)
next
  case False
  then show ?thesis using s2 f by simp
qed

lemma quiet_safeRun:
  assumes call: "\<And>c s1. mute_cancel T c \<Longrightarrow> mute_store T s1 \<Longrightarrow> quiet T (\<lambda>_. True) s1 (call c s1)"
    and body: "\<And>st. mute_store T st \<Longrightarrow>
       quiet T (\<lambda>r. case r of RetNothing \<Rightarrow> True | RetFunction c \<Rightarrow> mute_cancel T c
                     | RetRecord c oc \<Rightarrow> mute_cancel T (or_noop c) \<and> mute_cancel T oc)
         st (body (HSucceed (nguards s)) (HFail (nguards s)) st)"
    and hs: "mute_hs T hs" and s: "mute_store T s"
  shows "quiet T (mute_cancel T) s (safeRun call body hs s)"
proof -
  let ?g = "nguards s"
  let ?s0 = "new_guard hs (CClose ?g) s"
  have s0: "mute_store T ?s0" using s hs by (rule mute_store_new(3)) simp
  have "quiet T (mute_cancel T) ?s0 (safeRun call body hs s)"
    unfolding safeRun_def Let_def
  proof (rule quiet_and_then, rule body[OF s0])
    fix a s1
    assume a: "case a of RetNothing \<Rightarrow> True | RetFunction c \<Rightarrow> mute_cancel T c
                     | RetRecord c oc \<Rightarrow> mute_cancel T (or_noop c) \<and> mute_cancel T oc"
      and s1: "mute_store T s1"
    let ?s2 = "case a of RetNothing \<Rightarrow> s1
                     | RetFunction c \<Rightarrow> set_guard ?g (\<lambda>v. v\<lparr>g_cancel := c\<rparr>) s1
                     | RetRecord c oc \<Rightarrow>
                         set_guard ?g (\<lambda>v. v\<lparr>g_cancel := or_noop c, g_onClose := oc\<rparr>) s1"
    have s2: "mute_store T ?s2" using a s1
      by (cases a) (auto intro!: mute_store_set_guard simp: mute_guard_def)
    have f: "fired T ?s2 = fired T s1" by (cases a) simp_all
    from quiet_finish[where call=call and g="?g", OF call s2 f]
    show "quiet T (mute_cancel T) s1 (if g_closed (guards ?s2 ?g)
           then and_then (call (g_onClose (guards (set_guard ?g (\<lambda>v. v\<lparr>g_cancel := CNoop\<rparr>) ?s2) ?g))
                   (set_guard ?g (\<lambda>v. v\<lparr>g_cancel := CNoop\<rparr>) ?s2))
                  (\<lambda>_ s4. Some (Inr (CHandle ?g), s4))
           else Some (Inr (CHandle ?g), ?s2))"
      by (simp only: Let_def)
  qed
  then show ?thesis by (rule quiet_from[OF s0, rotated]) simp
qed

lemma quiet_safeRun2:
  assumes call: "\<And>c s1. mute_cancel T c \<Longrightarrow> mute_store T s1 \<Longrightarrow> quiet T (\<lambda>_. True) s1 (call c s1)"
    and body: "\<And>st. mute_store T st \<Longrightarrow>
       quiet T (\<lambda>r. mute_cancel T (or_noop (onCancel r)) \<and> mute_cancel T (or_noop (onClose r)))
         st (body (HSucceed (nguards s)) (HFail (nguards s))
               (map_option (\<lambda>_. HCatch (nguards s)) (catch hs)) st)"
    and hs: "mute_hs T hs" and s: "mute_store T s"
  shows "quiet T (mute_cancel T) s (safeRun2 call body hs s)"
proof -
  let ?g = "nguards s"
  let ?s0 = "new_guard hs (CClose2 ?g) s"
  have s0: "mute_store T ?s0" using s hs by (rule mute_store_new(3)) simp
  have "quiet T (mute_cancel T) ?s0 (safeRun2 call body hs s)"
    unfolding safeRun2_def Let_def
  proof (rule quiet_and_then, rule body[OF s0])
    fix a s1
    assume a: "mute_cancel T (or_noop (onCancel a)) \<and> mute_cancel T (or_noop (onClose a))"
      and s1: "mute_store T s1"
    let ?s2 = "set_guard ?g (\<lambda>v. v\<lparr>g_cancel := or_noop (onCancel a),
                                       g_onClose := or_noop (onClose a)\<rparr>) s1"
    have s2: "mute_store T ?s2" using a s1
      by (auto intro!: mute_store_set_guard simp: mute_guard_def)
    have f: "fired T ?s2 = fired T s1" by simp
    from quiet_finish[where call=call and g="?g", OF call s2 f]
    show "quiet T (mute_cancel T) s1 (if g_closed (guards ?s2 ?g)
           then and_then (call (g_onClose (guards (set_guard ?g (\<lambda>v. v\<lparr>g_cancel := CNoop\<rparr>) ?s2) ?g))
                   (set_guard ?g (\<lambda>v. v\<lparr>g_cancel := CNoop\<rparr>) ?s2))
                  (\<lambda>_ s4. Some (Inr (CHandle ?g), s4))
           else Some (Inr (CHandle ?g), ?s2))"
      by (simp only: Let_def)
  qed
  then show ?thesis by (rule quiet_from[OF s0, rotated]) simp
qed

lemma mute_handlers_of: "mute_loose T h \<Longrightarrow> mute_hs T (handlers_of h)"
  by (cases h) (auto simp: handlers_of_def mute_hs_def mute_opt_def split: option.splits)

lemma quiet_run:
  "(\<forall>t h s. mute_loose T h \<longrightarrow> mute_store T s \<longrightarrow> quiet T (mute_cancel T) s (run n t h s)) \<and>
   (\<forall>t hs s. mute_hs T hs \<longrightarrow> mute_store T s \<longrightarrow> quiet T (mute_cancel T) s (run_impl n t hs s)) \<and>
   (\<forall>h x s. mute T h \<longrightarrow> mute_store T s \<longrightarrow> quiet T (\<lambda>_. True) s (call_handler n h x s)) \<and>
   (\<forall>c s. mute_cancel T c \<longrightarrow> mute_store T s \<longrightarrow> quiet T (\<lambda>_. True) s (call_cancel n c s))"
proof (induction n)
  case 0
  show ?case by simp
next
  case (Suc n)
  then have R: "\<And>t h s. mute_loose T h \<Longrightarrow> mute_store T s \<Longrightarrow> quiet T (mute_cancel T) s (run n t h s)"
    and I: "\<And>t hs s. mute_hs T hs \<Longrightarrow> mute_store T s \<Longrightarrow> quiet T (mute_cancel T) s (run_impl n t hs s)"
    and C: "\<And>h x s. mute T h \<Longrightarrow> mute_store T s \<Longrightarrow> quiet T (\<lambda>_. True) s (call_handler n h x s)"
    and K: "\<And>c s. mute_cancel T c \<Longrightarrow> mute_store T s \<Longrightarrow> quiet T (\<lambda>_. True) s (call_cancel n c s)"
    by blast+
  have W: "quiet T (\<lambda>_. True) s
             (and_then (call_handler n h x s) (\<lambda>_ s1. call_cancel n (g_close (guards s1 g)) s1))"
    if "mute T h" "mute_store T s" for h x s g
  proof (rule quiet_and_then, rule C[OF that])
    fix a s1 assume s1: "mute_store T s1"
    have "mute_cancel T (g_close (guards s1 g))"
      using mute_store_guard[OF s1, of g] by (simp add: mute_guard_def)
    then show "quiet T (\<lambda>_. True) s1 (call_cancel n (g_close (guards s1 g)) s1)"
      using s1 by (rule K)
  qed
  have r: "quiet T (mute_cancel T) s (run (Suc n) t h s)"
    if "mute_loose T h" "mute_store T s" for t h s
    using that by (cases t) (simp_all add: I mute_handlers_of)
  have i: "quiet T (mute_cancel T) s (run_impl (Suc n) t hs s)"
    if hs: "mute_hs T hs" and s: "mute_store T s" for t hs s
  proof (cases t)
    case (FromComputation cmp)
    let ?su = "HSucceed (nguards s)" and ?fa = "HFail (nguards s)"
    let ?P = "\<lambda>r. mute_cancel T (or_noop (onCancel r)) \<and> mute_cancel T (or_noop (onClose r))"
    have A: "quiet T ?P st
          (and_then (apply_computation (call_handler n) cmp ?su ?fa st)
              (\<lambda>cancel_r st1. Some (Inr \<lparr>onCancel = Some (user_cancel cancel_r ?su ?fa),
                                          onClose = None\<rparr>, st1)))"
      if st: "mute_store T st" for st
    proof (rule quiet_and_then)
      show "quiet T (\<lambda>_. True) st (apply_computation (call_handler n) cmp ?su ?fa st)"
        by (rule quiet_apply_computation[OF C _ _ st]) simp_all
    next
      fix a s1 assume "mute_store T s1"
      then show "quiet T ?P s1 (Some (Inr \<lparr>onCancel = Some (user_cancel a ?su ?fa),
                                          onClose = None\<rparr>, s1))"
        by (cases a) (simp_all add: user_cancel_def or_noop_def)
    qed
    have b: "quiet T ?P st (case map_option (\<lambda>_. HCatch (nguards s)) (catch hs) of
          Some c \<Rightarrow>
            try_catch
              (and_then (apply_computation (call_handler n) cmp ?su ?fa st)
                 (\<lambda>cancel_r st1. Some (Inr \<lparr>onCancel = Some (user_cancel cancel_r ?su ?fa),
                                             onClose = None\<rparr>, st1)))
              (\<lambda>e st1. and_then (call_handler n c e st1)
                 (\<lambda>_ st2. Some (Inr \<lparr>onCancel = Some CNoop, onClose = None\<rparr>, st2)))
        | None \<Rightarrow>
            and_then (apply_computation (call_handler n) cmp ?su ?fa st)
              (\<lambda>cancel_r st1. Some (Inr \<lparr>onCancel = Some (user_cancel cancel_r ?su ?fa),
                                          onClose = None\<rparr>, st1)))"
      if st: "mute_store T st" for st
    proof (cases "catch hs")
      case None
      show ?thesis unfolding None option.map option.case by (rule A[OF st])
    next
      case (Some c0)
      show ?thesis unfolding Some option.map option.case
      proof (rule quiet_try_catch, rule A[OF st])
        fix e s1 assume s1: "mute_store T s1"
        show "quiet T ?P s1 (and_then (call_handler n (HCatch (nguards s)) e s1)
                 (\<lambda>_ st2. Some (Inr \<lparr>onCancel = Some CNoop, onClose = None\<rparr>, st2)))"
          by (rule quiet_and_then, rule C[OF _ s1]) (simp_all add: or_noop_def)
      qed
    qed
    show ?thesis unfolding FromComputation run_impl.simps
      by (rule quiet_safeRun2[OF K _ hs s]) (assumption+, rule b)
  next
    case (Of v)
    show ?thesis unfolding Of run_impl.simps
      by (rule quiet_and_then, rule C) (use hs s in \<open>simp_all add: mute_hs_def\<close>)
  next
    case (Rejected e)
    show ?thesis unfolding Rejected run_impl.simps
      by (rule quiet_and_then, rule C) (use hs s in \<open>simp_all add: mute_hs_def\<close>)
  next
    case Empty
    show ?thesis unfolding Empty using s by simp
  next
    case (All_t ts)
    let ?P = "\<lambda>r. case r of RetNothing \<Rightarrow> True | RetFunction c \<Rightarrow> mute_cancel T c
                     | RetRecord c oc \<Rightarrow> mute_cancel T (or_noop c) \<and> mute_cancel T oc"
    have b: "quiet T ?P st (and_then
          (map_tasks (\<lambda>t index. run n t
               (Loose (Some (HAllSuccess (nalls st) index (length ts) (HSucceed (nguards s))))
                  (Some (HFail (nguards s))) None))
             ts 0 (new_all (length ts) st))
          (\<lambda>cancels st1. Some (Inr (RetRecord None (CForEach cancels)), st1)))"
      if st: "mute_store T st" for st
    proof (rule quiet_and_then)
      have "quiet T (\<lambda>cs. \<forall>c \<in> set cs. mute_cancel T c) (new_all (length ts) st)
         (map_tasks (\<lambda>t index. run n t
               (Loose (Some (HAllSuccess (nalls st) index (length ts) (HSucceed (nguards s))))
                  (Some (HFail (nguards s))) None))
             ts 0 (new_all (length ts) st))"
        by (rule quiet_map_tasks, rule R) (simp_all add: mute_opt_def mute_store_new(1)[OF st])
      then show "quiet T (\<lambda>cs. \<forall>c \<in> set cs. mute_cancel T c) st
         (map_tasks (\<lambda>t index. run n t
               (Loose (Some (HAllSuccess (nalls st) index (length ts) (HSucceed (nguards s))))
                  (Some (HFail (nguards s))) None))
             ts 0 (new_all (length ts) st))"
        by (rule quiet_from[OF mute_store_new(1)[OF st], rotated]) simp
    next
      fix a s1 assume "\<forall>c \<in> set a. mute_cancel T c" "mute_store T s1"
      then show "quiet T ?P s1 (Some (Inr (RetRecord None (CForEach a)), s1))"
        by (simp add: or_noop_def)
    qed
    show ?thesis unfolding All_t run_impl.simps
      by (rule quiet_safeRun[OF K _ hs s]) (assumption+, rule b)
  next
    case (Race ts)
    let ?P = "\<lambda>r. case r of RetNothing \<Rightarrow> True | RetFunction c \<Rightarrow> mute_cancel T c
                     | RetRecord c oc \<Rightarrow> mute_cancel T (or_noop c) \<and> mute_cancel T oc"
    have b: "quiet T ?P st (and_then
          (map_tasks (\<lambda>t index. run n t
               (Loose (Some (HSucceed (nguards s))) (Some (HFail (nguards s))) None)) ts 0 st)
          (\<lambda>cancels st1. Some (Inr (RetRecord None (CForEach cancels)), st1)))"
      if st: "mute_store T st" for st
    proof (rule quiet_and_then)
      show "quiet T (\<lambda>cs. \<forall>c \<in> set cs. mute_cancel T c) st
         (map_tasks (\<lambda>t index. run n t
               (Loose (Some (HSucceed (nguards s))) (Some (HFail (nguards s))) None)) ts 0 st)"
        by (rule quiet_map_tasks, rule R) (simp_all add: mute_opt_def st)
    next
      fix a s1 assume "\<forall>c \<in> set a. mute_cancel T c" "mute_store T s1"
      then show "quiet T ?P s1 (Some (Inr (RetRecord None (CForEach a)), s1))"
        by (simp add: or_noop_def)
    qed
    show ?thesis unfolding Race run_impl.simps
      by (rule quiet_safeRun[OF K _ hs s]) (assumption+, rule b)
  next
    case (Map_t t fn)
    show ?thesis unfolding Map_t run_impl.simps
      by (rule R) (use hs s in \<open>simp_all add: mute_hs_def mute_opt_def\<close>)
  next
    case (MapRejected t fn)
    show ?thesis unfolding MapRejected run_impl.simps
      by (rule R) (use hs s in \<open>simp_all add: mute_hs_def mute_opt_def\<close>)
  next
    case (Chain t fn)
    let ?g = "nguards s"
    let ?ca = "map_option (\<lambda>_. HCatch ?g) (catch hs)"
    let ?P = "\<lambda>r. mute_cancel T (or_noop (onCancel r)) \<and> mute_cancel T (or_noop (onClose r))"
    have b: "quiet T ?P st (and_then
          (run n t (Loose (Some (HChainSuccess fn (ncells st) (HSucceed ?g) (HFail ?g) ?ca))
                     (Some (HFail ?g)) ?ca) (new_cell st))
          (\<lambda>cancel1 st1. Some (Inr \<lparr>onCancel = Some (CBoth cancel1 (ncells st)),
                                     onClose = None\<rparr>, st1)))"
      if st: "mute_store T st" for st
    proof (rule quiet_and_then)
      have "quiet T (mute_cancel T) (new_cell st)
         (run n t (Loose (Some (HChainSuccess fn (ncells st) (HSucceed ?g) (HFail ?g) ?ca))
                     (Some (HFail ?g)) ?ca) (new_cell st))"
        by (rule R) (cases "catch hs", simp_all add: mute_opt_def mute_store_new(2)[OF st])
      then show "quiet T (mute_cancel T) st
         (run n t (Loose (Some (HChainSuccess fn (ncells st) (HSucceed ?g) (HFail ?g) ?ca))
                     (Some (HFail ?g)) ?ca) (new_cell st))"
        by (rule quiet_from[OF mute_store_new(2)[OF st], rotated]) simp
    next
      fix a s1 assume "mute_cancel T a" "mute_store T s1"
      then show "quiet T ?P s1 (Some (Inr \<lparr>onCancel = Some (CBoth a (ncells st)),
                                     onClose = None\<rparr>, s1))"
        by (simp add: or_noop_def)
    qed
    show ?thesis unfolding Chain run_impl.simps
      by (rule quiet_safeRun2[OF K _ hs s]) (assumption+, rule b)
  next
    case (OrElse t fn)
    let ?g = "nguards s"
    let ?P = "\<lambda>r. case r of RetNothing \<Rightarrow> True | RetFunction c \<Rightarrow> mute_cancel T c
                     | RetRecord c oc \<Rightarrow> mute_cancel T (or_noop c) \<and> mute_cancel T oc"
    have b: "quiet T ?P st (and_then
          (run n t (Loose (Some (HSucceed ?g))
                     (Some (HOrElseFailure fn (ncells st) (HSucceed ?g) (HFail ?g))) None)
             (new_cell st))
          (\<lambda>cancel1 st1. Some (Inr (RetFunction (CBoth cancel1 (ncells st))), st1)))"
      if st: "mute_store T st" for st
    proof (rule quiet_and_then)
      have "quiet T (mute_cancel T) (new_cell st)
         (run n t (Loose (Some (HSucceed ?g))
                     (Some (HOrElseFailure fn (ncells st) (HSucceed ?g) (HFail ?g))) None)
             (new_cell st))"
        by (rule R) (simp_all add: mute_opt_def mute_store_new(2)[OF st])
      then show "quiet T (mute_cancel T) st
         (run n t (Loose (Some (HSucceed ?g))
                     (Some (HOrElseFailure fn (ncells st) (HSucceed ?g) (HFail ?g))) None)
             (new_cell st))"
        by (rule quiet_from[OF mute_store_new(2)[OF st], rotated]) simp
    next
      fix a s1 assume "mute_cancel T a" "mute_store T s1"
      then show "quiet T ?P s1 (Some (Inr (RetFunction (CBoth a (ncells st))), s1))"
        by simp
    qed
    show ?thesis unfolding OrElse run_impl.simps
      by (rule quiet_safeRun[OF K _ hs s]) (assumption+, rule b)
  qed
  have S: "quiet T (\<lambda>_. True) s (case fn x of Inl e \<Rightarrow> Some (Inl e, s)
             | Inr t2 \<Rightarrow> and_then (run n t2 h s)
                 (\<lambda>cancel2 s1. Some (Inr (), s1\<lparr>cells := (cells s1)(c := cancel2)\<rparr>)))"
    if "mute_loose T h" "mute_store T s"
    for fn :: "val \<Rightarrow> val + task" and x s h c
  proof (cases "fn x")
    case (Inl e)
    show ?thesis unfolding Inl using that by simp
  next
    case (Inr t2)
    show ?thesis unfolding Inr sum.case
      by (rule quiet_and_then, rule R[OF that]) (simp add: mute_store_cells)
  qed
  have c: "quiet T (\<lambda>_. True) s (call_handler (Suc n) h x s)"
    if h: "mute T h" and s: "mute_store T s" for h x s
  proof (cases h)
    case HNoop
    show ?thesis unfolding HNoop using s by simp
  next
    case HDefaultFailure
    show ?thesis unfolding HDefaultFailure using s by simp
  next
    case (HUser ch thrown)
    show ?thesis using h s unfolding HUser by (cases "thrown x") simp_all
  next
    case (HSucceed g)
    have "mute T (g_success (guards s g))"
      using mute_store_guard[OF s, of g] by (simp add: mute_guard_def)
    then show ?thesis unfolding HSucceed call_handler.simps using s by (rule W)
  next
    case (HFail g)
    have "mute T (g_failure (guards s g))"
      using mute_store_guard[OF s, of g] by (simp add: mute_guard_def)
    then show ?thesis unfolding HFail call_handler.simps using s by (rule W)
  next
    case (HCatch g)
    have m: "mute_opt T (g_catch (guards s g))"
      using mute_store_guard[OF s, of g] by (simp add: mute_guard_def)
    have "quiet T (\<lambda>_. True) s (case g_catch (guards s g) of
                 None \<Rightarrow> Some (Inl (VErr ''catch_ is not a function''), s)
               | Some c \<Rightarrow> call_handler n c x s)"
      using m s by (cases "g_catch (guards s g)") (simp_all add: mute_opt_def C)
    then show ?thesis unfolding HCatch call_handler.simps
    proof (rule quiet_and_then)
      fix a s1 assume s1: "mute_store T s1"
      have "mute_cancel T (g_close (guards s1 g))"
        using mute_store_guard[OF s1, of g] by (simp add: mute_guard_def)
      then show "quiet T (\<lambda>_. True) s1 (call_cancel n (g_close (guards s1 g)) s1)"
        using s1 by (rule K)
    qed
  next
    case (HMapSuccess fn h')
    show ?thesis using h s unfolding HMapSuccess by (cases "fn x") (simp_all add: C)
  next
    case (HMapFailure fn h')
    show ?thesis using h s unfolding HMapFailure by (cases "fn x") (simp_all add: C)
  next
    case (HAllSuccess a index len su)
    have "quiet T (\<lambda>_. True) s (call_handler n su v (s\<lparr>alls := A\<rparr>))" for v A
      by (rule quiet_from[of T "s\<lparr>alls := A\<rparr>"]) (use h s in \<open>simp_all add: HAllSuccess C\<close>)
    then show ?thesis unfolding HAllSuccess using s by (simp add: Let_def)
  next
    case (HChainSuccess fn c su fa ca)
    show ?thesis
    proof (cases ca)
      case None
      show ?thesis unfolding HChainSuccess None call_handler.simps option.case
        by (rule S) (use h s in \<open>simp_all add: HChainSuccess None mute_opt_def\<close>)
    next
      case (Some catch_h)
      show ?thesis unfolding HChainSuccess Some call_handler.simps option.case
        by (rule quiet_try_catch, rule S)
           (use h s in \<open>simp_all add: HChainSuccess Some mute_opt_def C\<close>)
    qed
  next
    case (HOrElseFailure fn c su fa)
    show ?thesis unfolding HOrElseFailure call_handler.simps
      by (rule S) (use h s in \<open>simp_all add: HOrElseFailure mute_opt_def\<close>)
  qed
  have k: "quiet T (\<lambda>_. True) s (call_cancel (Suc n) c s)"
    if c: "mute_cancel T c" and s: "mute_store T s" for c s
  proof (cases c)
    case CNoop
    show ?thesis unfolding CNoop using s by simp
  next
    case (CUser f su fa)
    obtain k as thrown where f: "f = CancelFn k as thrown" by (cases f)
    let ?s0 = "s\<lparr>log := log s @ [Cleanup k]\<rparr>"
    have s0: "mute_store T ?s0" using s by simp
    have "quiet T (\<lambda>_. True) ?s0 (and_then (calls (call_handler n) su fa as ?s0)
       (\<lambda>_ s1. case thrown of None \<Rightarrow> Some (Inr (), s1) | Some e \<Rightarrow> Some (Inl e, s1)))"
    proof (rule quiet_and_then)
      show "quiet T (\<lambda>_. True) ?s0 (calls (call_handler n) su fa as ?s0)"
        by (rule quiet_calls[OF C _ _ s0]) (use c in \<open>simp_all add: CUser\<close>)
    next
      fix a s1 assume "mute_store T s1"
      then show "quiet T (\<lambda>_. True) s1
          (case thrown of None \<Rightarrow> Some (Inr (), s1) | Some e \<Rightarrow> Some (Inl e, s1))"
        by (cases thrown) simp_all
    qed
    then show ?thesis unfolding CUser f call_cancel.simps
      by (rule quiet_from[OF s0, rotated]) simp
  next
    case (CHandle g)
    have "mute_cancel T (g_cancel (guards s g))"
      using mute_store_guard[OF s, of g] by (simp add: mute_guard_def)
    then have "quiet T (\<lambda>_. True) s (call_cancel n (g_cancel (guards s g)) s)"
      using s by (rule K)
    then show ?thesis unfolding CHandle call_cancel.simps
    proof (rule quiet_and_then)
      fix a s1 assume s1: "mute_store T s1"
      have "mute_cancel T (g_close (guards s1 g))"
        using mute_store_guard[OF s1, of g] by (simp add: mute_guard_def)
      then show "quiet T (\<lambda>_. True) s1 (call_cancel n (g_close (guards s1 g)) s1)"
        using s1 by (rule K)
    qed
  next
    case (CClose g)
    have "mute_cancel T (g_onClose (guards s g))"
      using mute_store_guard[OF s, of g] by (simp add: mute_guard_def)
    then have "quiet T (\<lambda>_. True) s (call_cancel n (g_onClose (guards s g)) s)"
      using s by (rule K)
    then show ?thesis unfolding CClose call_cancel.simps sever_def[symmetric]
      by (rule quiet_and_then) (simp add: mute_store_sever)
  next
    case (CClose2 g)
    have "mute_cancel T (g_onClose (guards s g))"
      using mute_store_guard[OF s, of g] by (simp add: mute_guard_def)
    then have "quiet T (\<lambda>_. True) s (call_cancel n (g_onClose (guards s g)) s)"
      using s by (rule K)
    then show ?thesis unfolding CClose2 call_cancel.simps sever2_def[symmetric]
      by (rule quiet_and_then) (simp add: mute_store_sever)
  next
    case (CForEach cs)
    show ?thesis unfolding CForEach call_cancel.simps
      by (rule quiet_for_each[OF K _ s]) (use c in \<open>simp_all add: CForEach\<close>)
  next
    case (CBoth c1 cell)
    have "quiet T (\<lambda>_. True) s (call_cancel n c1 s)"
      by (rule K) (use c s in \<open>simp_all add: CBoth\<close>)
    then show ?thesis unfolding CBoth call_cancel.simps
    proof (rule quiet_and_then)
      fix a s1 assume s1: "mute_store T s1"
      then have "mute_cancel T (cells s1 cell)" by (simp add: mute_store_def)
      then show "quiet T (\<lambda>_. True) s1 (call_cancel n (cells s1 cell) s1)"
        using s1 by (rule K)
    qed
  qed
  show ?case using r i c k by blast
qed

lemma quiet_uncaught:
  assumes "quiet T P s m" and "uncaught m = Some s'"
  shows "mute_store T s' \<and> fired T s' = fired T s"
proof (cases m)
  case None
  with assms(2) show ?thesis by (simp add: uncaught_def)
next
  case (Some p)
  obtain q s1 where p: "p = (q, s1)" by (cases p)
  have s1: "mute_store T s1" "fired T s1 = fired T s"
    using assms(1) Some p by (simp_all add: quiet_def)
  show ?thesis using assms(2) Some p s1 by (cases q) (auto simp: uncaught_def)
qed

lemma quiet_event:
  assumes s: "mute_store T s" and h: "\<And>c. handle = Some c \<Longrightarrow> mute_cancel T c"
    and e: "event_step n handle e s = Some s'"
  shows "mute_store T s' \<and> fired T s' = fired T s"
proof (cases e)
  case (Settle k a)
  show ?thesis
  proof (cases "k < length (stash s)")
    case True
    then have m: "mute T (fst (stash s ! k))" "mute T (snd (stash s ! k))"
      using s by (simp_all add: mute_store_def)
    have q: "quiet T (\<lambda>_. True) s (call_handler n (fst (stash s ! k)) x s)"
      "quiet T (\<lambda>_. True) s (call_handler n (snd (stash s ! k)) x s)" for x
      using quiet_run[of T n] m s by blast+
    show ?thesis
    proof (cases a)
      case (Succeed x)
      then have "uncaught (call_handler n (fst (stash s ! k)) x s) = Some s'"
        using e True unfolding Settle by simp
      with q(1) show ?thesis by (rule quiet_uncaught)
    next
      case (Fail x)
      then have "uncaught (call_handler n (snd (stash s ! k)) x s) = Some s'"
        using e True unfolding Settle by simp
      with q(2) show ?thesis by (rule quiet_uncaught)
    qed
  next
    case False
    then show ?thesis using e s unfolding Settle by simp
  qed
next
  case Cancel
  show ?thesis
  proof (cases handle)
    case None
    then show ?thesis using e s unfolding Cancel by simp
  next
    case (Some c)
    have "quiet T (\<lambda>_. True) s (call_cancel n c s)"
      using quiet_run[of T n] h[OF Some] s by blast
    moreover have "uncaught (call_cancel n c s) = Some s'" using e unfolding Cancel Some by simp
    ultimately show ?thesis by (rule quiet_uncaught)
  qed
qed

lemma quiet_events:
  assumes h: "\<And>c. handle = Some c \<Longrightarrow> mute_cancel T c"
  shows "mute_store T s \<Longrightarrow> events n handle es s = Some s' \<Longrightarrow> fired T s' = fired T s"
proof (induction es arbitrary: s)
  case Nil
  then show ?case by simp
next
  case (Cons e es)
  from Cons.prems(2) obtain s1 where e: "event_step n handle e s = Some s1"
    and r: "events n handle es s1 = Some s'"
    by (auto simp: bind_eq_Some_conv)
  from quiet_event[OF Cons.prems(1) h e] Cons.IH[OF _ r] show ?case by simp
qed

lemma mute_init: "mute_store T init" "fired T init = []"
  by (simp_all add: mute_store_def mute_guard_def mute_opt_def init_def fired_def)

text \<open>A session whose run is quiet never calls a callback on a channel of \<open>T\<close>.\<close>

lemma session_quiet:
  assumes q: "quiet T (mute_cancel T) init (run n t h init)" and s: "session n t h es = Some s"
  shows "fired T s = []"
proof -
  from s obtain r s0 where r: "run n t h init = Some (r, s0)"
    by (cases "run n t h init") (auto simp: session_def)
  have s0: "mute_store T s0" "fired T s0 = []" "\<And>c. r = Inr c \<Longrightarrow> mute_cancel T c"
    using q r by (simp_all add: quiet_def mute_init)
  show ?thesis
  proof (cases r)
    case (Inl e)
    let ?s1 = "s0\<lparr>log := log s0 @ [Uncaught e]\<rparr>"
    have "events n None es ?s1 = Some s" using s r Inl by (simp add: session_def)
    from quiet_events[OF _ _ this, of T] s0 show ?thesis by simp
  next
    case (Inr c)
    have "events n (Some c) es s0 = Some s" using s r Inr by (simp add: session_def)
    from quiet_events[OF _ s0(1) this] s0(3)[OF Inr] s0(2) show ?thesis by simp
  qed
qed

lemma callbacks_mute_defects:
  "callbacks h \<Longrightarrow> mute defects (success (handlers_of h)) \<and> mute defects (failure (handlers_of h))"
  by (cases h) (auto simp: handlers_of_def defects_def)

lemma map_quiet:
  assumes "callbacks h" and "t' = Map_t t fn \<or> t' = MapRejected t fn" and "mute_store defects s"
  shows "quiet defects (mute_cancel defects) s (run n t' h s)"
proof (cases n)
  case 0
  then show ?thesis by simp
next
  case (Suc m)
  show ?thesis
  proof (cases m)
    case 0
    then show ?thesis using Suc assms(2) by auto
  next
    case (Suc k)
    have R: "\<And>t h s. mute_loose defects h \<Longrightarrow> mute_store defects s \<Longrightarrow>
        quiet defects (mute_cancel defects) s (run k t h s)"
      using quiet_run[of defects k] by blast
    from assms(2) show ?thesis
    proof
      assume "t' = Map_t t fn"
      then show ?thesis using \<open>n = Suc m\<close> Suc callbacks_mute_defects[OF assms(1)] assms(3)
        by (auto intro!: R simp: mute_opt_def)
    next
      assume "t' = MapRejected t fn"
      then show ?thesis using \<open>n = Suc m\<close> Suc callbacks_mute_defects[OF assms(1)] assms(3)
        by (auto intro!: R simp: mute_opt_def)
    qed
  qed
qed

lemma fires_fired: "fires T s = 0 \<longleftrightarrow> fired T s = []"
  by (simp add: fires_def)

lemma defined_option: "(case x of None \<Rightarrow> False | Some y \<Rightarrow> True) \<Longrightarrow> \<exists>y. x = Some y"
  by (cases x) simp_all



lemmas guard_defs = safeRun_def safeRun2_def new_guard_def set_guard_def or_noop_def
  new_all_def new_cell_def apply_computation_def user_cancel_def handlers_of_def Let_def

lemma nested_throw:
  "map_option fst (run (Suc (Suc (Suc (Suc (Suc (Suc (Suc m)))))))
      (Map_t (Chain (Of v) (\<lambda>x. Inl e)) fn') h0 s0) = Some (Inl e)"
  by (cases h0) (simp_all add: guard_defs)

lemma all_empty_events:
  assumes "stash s = []" "log s = []" "g_cancel (guards s 0) = CNoop"
    "g_onClose (guards s 0) = CForEach []"
    "g_close (guards s 0) = CClose 0 \<or> g_close (guards s 0) = CNoop"
  shows "\<exists>s'. events (Suc (Suc (Suc (Suc n)))) (Some (CHandle 0)) es s = Some s' \<and> log s' = []"
  using assms
proof (induction es arbitrary: s)
  case Nil
  then show ?case by simp
next
  case (Cons e es)
  show ?case
  proof (cases e)
    case (Settle k a)
    then show ?thesis using Cons.prems Cons.IH[of s] by simp
  next
    case Cancel
    from Cons.prems(5) show ?thesis
    proof
      assume c: "g_close (guards s 0) = CClose 0"
      let ?s1 = "s\<lparr>guards := (guards s)(0 := (guards s 0)
          \<lparr>g_success := HNoop, g_failure := HNoop, g_catch := None,
           g_cancel := CNoop, g_closed := True, g_close := CNoop\<rparr>)\<rparr>"
      have "event_step (Suc (Suc (Suc (Suc n)))) (Some (CHandle 0)) e s = Some ?s1"
        using Cancel Cons.prems c by (simp add: uncaught_def)
      moreover have "\<exists>s'. events (Suc (Suc (Suc (Suc n)))) (Some (CHandle 0)) es ?s1 = Some s'
          \<and> log s' = []"
        using Cons.prems by (intro Cons.IH) simp_all
      ultimately show ?thesis by simp
    next
      assume c: "g_close (guards s 0) = CNoop"
      have "event_step (Suc (Suc (Suc (Suc n)))) (Some (CHandle 0)) e s = Some s"
        using Cancel Cons.prems c by (simp add: uncaught_def)
      then show ?thesis using Cons.IH[OF Cons.prems] by simp
    qed
  qed
qed

lemma call_plain:
  "call_cancel (Suc n) (or_noop (map_option (plain_cancel su fa) k)) s =
     Some (Inr (), s\<lparr>log := log s @ cleanup_log k\<rparr>)"
  by (cases k) (simp_all add: or_noop_def plain_cancel_def plain_def cleanup_log_def)

lemma call_plain_cancel:
  "call_cancel (Suc n) (plain_cancel su fa k) s = Some (Inr (), s\<lparr>log := log s @ [Cleanup k]\<rparr>)"
  by (simp add: plain_cancel_def plain_def)

lemma defined_return:
  assumes "case x of Some (Inr u, s) \<Rightarrow> P s | _ \<Rightarrow> False"
  shows "\<exists>u s. x = Some (Inr u, s) \<and> P s"
proof (cases x)
  case None
  with assms show ?thesis by simp
next
  case (Some p)
  obtain q s where p: "p = (q, s)" by (cases p)
  show ?thesis using assms Some p by (cases q) simp_all
qed

lemma is_noop: "(case c of CNoop \<Rightarrow> True | _ \<Rightarrow> False) \<Longrightarrow> c = CNoop"
  by (cases c) simp_all

lemma ev_refl: "ok R T s \<Longrightarrow> evolves R T s s"
  by (simp add: evolves_def)

lemma ev_trans: "evolves R T s s1 \<Longrightarrow> evolves R T s1 s2 \<Longrightarrow> evolves R T s s2"
  by (auto simp: evolves_def)

lemma ev_ok: "evolves R T s s' \<Longrightarrow> ok R T s'"
  by (simp add: evolves_def)



























lemma presI: "(\<And>r s'. m = Some (r, s') \<Longrightarrow> evolves R T s s') \<Longrightarrow> pres R T s m"
  by (simp add: pres_def)


lemma pres_None [simp]: "pres R T s None"
  by (simp add: pres_def)

lemma pres_Some [simp]: "pres R T s (Some (r, s')) = evolves R T s s'"
  by (simp add: pres_def)


lemma pres_and_then:
  assumes "pres R T s m" and "\<And>a s1. evolves R T s s1 \<Longrightarrow> pres R T s1 (f a s1)"
  shows "pres R T s (and_then m f)"
proof (rule presI)
  fix r s' assume a: "and_then m f = Some (r, s')"
  show "evolves R T s s'"
  proof (cases m)
    case None
    with a show ?thesis by simp
  next
    case (Some p)
    obtain q s1 where p: "p = (q, s1)" by (cases p)
    have e1: "evolves R T s s1" using assms(1) Some p by (simp add: pres_def)
    show ?thesis
    proof (cases q)
      case (Inl e)
      with a Some p e1 show ?thesis by simp
    next
      case (Inr b)
      with a Some p have "f b s1 = Some (r, s')" by simp
      with assms(2)[OF e1] have "evolves R T s1 s'" by (simp add: pres_def)
      with e1 show ?thesis by (rule ev_trans)
    qed
  qed
qed




lemma pres_map_tasks:
  assumes "\<And>t i s1. ok R T s1 \<Longrightarrow> pres R T s1 (f t i s1)"
  shows "ok R T s \<Longrightarrow> pres R T s (map_tasks f ts i s)"
proof (induction ts arbitrary: i s)
  case Nil
  then show ?case by (simp add: ev_refl)
next
  case (Cons t ts)
  show ?case
    apply simp
    apply (rule pres_and_then)
     apply (rule assms[OF Cons.prems])
    apply (rule pres_and_then)
     apply (rule Cons.IH)
     apply (erule ev_ok)
    apply simp
    apply (rule ev_refl)
    apply (erule ev_ok)
    done
qed


























lemma clean_opt_simps [simp]:
  "clean_opt T None" "clean_opt T (Some h) = clean T h"
  "clean_opt T (map_option (\<lambda>_. HCatch g) c)"
  by (simp_all add: clean_opt_def split: option.splits)








































section \<open>The claims\<close>

subsection \<open>C1: at most one settlement\<close>




subsection \<open>C2: All on an empty task list\<close>

text \<open>
  Claim C2 says that running \<^verbatim>\<open>All\<close> on an empty task list settles successfully with
  an empty result sequence. The code does not: the outer success callback is only called
  from the success handler of a sub-task, and there is none. Whatever the handlers and
  whatever happens afterwards, the run returns and nothing is ever observed: no callback
  of the caller fires.
\<close>

theorem all_empty_never_settles:
  "\<exists>s. session (Suc (Suc (Suc (Suc n)))) (All_t []) h es = Some s \<and> log s = []"
proof -
  have r: "run (Suc (Suc (Suc (Suc n)))) (All_t []) h init =
     Some (Inr (CHandle 0),
       set_guard 0 (\<lambda>v. v\<lparr>g_cancel := CNoop, g_onClose := CForEach []\<rparr>)
         (new_guard (handlers_of h) (CClose 0) (new_all 0 init)))"
    by (simp add: safeRun_def Let_def new_all_def new_guard_def set_guard_def init_def or_noop_def)
  show ?thesis unfolding session_def r
    by (simp, rule all_empty_events) (simp_all add: set_guard_def new_guard_def new_all_def init_def)
qed

subsection \<open>C3: cancelling before settlement\<close>




subsection \<open>C7: what the guard does with the return value of its body\<close>

text \<open>
  Claim C7, for \<^verbatim>\<open>safeRun2\<close> and \<^verbatim>\<open>safeRun\<close> and any body. When the body returns a
  record, the guard takes its cancel function (\<^verbatim>\<open>onCancel\<close> in \<^verbatim>\<open>safeRun2\<close>,
  \<^verbatim>\<open>cancel\<close> in \<^verbatim>\<open>safeRun\<close>) and \<^verbatim>\<open>onClose\<close> from it, a missing field being
  \<^verbatim>\<open>noop\<close> (in \<^verbatim>\<open>safeRun\<close> the type of the record requires \<^verbatim>\<open>onClose\<close>). When the
  body has settled before it returns (the guard is closed and its \<^verbatim>\<open>close\<close> is
  \<^verbatim>\<open>noop\<close>), the cancel function of the record is dropped and never called, \<^verbatim>\<open>onClose\<close>
  is called once, and calling the returned cancel function changes nothing.
\<close>

theorem guard_return_record:
  assumes g: "g = nguards s"
    and b2: "bb (HSucceed g) (HFail g) (map_option (\<lambda>_. HCatch g) (catch hs))
               (new_guard hs (CClose2 g) s) =
             Some (Inr \<lparr>onCancel = map_option (plain_cancel cs cf) kc, onClose = map_option (plain_cancel cs cf) kl\<rparr>, sb)"
    and b1: "ba (HSucceed g) (HFail g) (new_guard hs (CClose g) s) =
             Some (Inr (RetRecord (map_option (plain_cancel cs cf) kc) (plain_cancel cs cf kl')), sa)"
  shows "safeRun2 (call_cancel (Suc n)) bb hs s =
           Some (Inr (CHandle g),
             if g_closed (guards sb g)
             then (set_guard g (\<lambda>v. v\<lparr>g_onClose := or_noop (map_option (plain_cancel cs cf) kl), g_cancel := CNoop\<rparr>) sb)
                    \<lparr>log := log sb @ cleanup_log kl\<rparr>
             else set_guard g (\<lambda>v. v\<lparr>g_cancel := or_noop (map_option (plain_cancel cs cf) kc),
                                      g_onClose := or_noop (map_option (plain_cancel cs cf) kl)\<rparr>) sb) \<and>
         safeRun (call_cancel (Suc n)) ba hs s =
           Some (Inr (CHandle g),
             if g_closed (guards sa g)
             then (set_guard g (\<lambda>v. v\<lparr>g_onClose := plain_cancel cs cf kl', g_cancel := CNoop\<rparr>) sa)
                    \<lparr>log := log sa @ [Cleanup kl']\<rparr>
             else set_guard g (\<lambda>v. v\<lparr>g_cancel := or_noop (map_option (plain_cancel cs cf) kc), g_onClose := plain_cancel cs cf kl'\<rparr>) sa) \<and>
         (g_closed (guards sb g) \<and> g_close (guards sb g) = CNoop \<longrightarrow>
           (\<exists>s4. safeRun2 (call_cancel (Suc n)) bb hs s = Some (Inr (CHandle g), s4) \<and>
                 log s4 = log sb @ cleanup_log kl \<and>
                 call_cancel (Suc (Suc m)) (CHandle g) s4 = Some (Inr (), s4))) \<and>
         (g_closed (guards sa g) \<and> g_close (guards sa g) = CNoop \<longrightarrow>
           (\<exists>s4. safeRun (call_cancel (Suc n)) ba hs s = Some (Inr (CHandle g), s4) \<and>
                 log s4 = log sa @ [Cleanup kl'] \<and>
                 call_cancel (Suc (Suc m)) (CHandle g) s4 = Some (Inr (), s4)))"
proof -
  have r2: "safeRun2 (call_cancel (Suc n)) bb hs s =
           Some (Inr (CHandle g),
             if g_closed (guards sb g)
             then (set_guard g (\<lambda>v. v\<lparr>g_onClose := or_noop (map_option (plain_cancel cs cf) kl), g_cancel := CNoop\<rparr>) sb)
                    \<lparr>log := log sb @ cleanup_log kl\<rparr>
             else set_guard g (\<lambda>v. v\<lparr>g_cancel := or_noop (map_option (plain_cancel cs cf) kc),
                                      g_onClose := or_noop (map_option (plain_cancel cs cf) kl)\<rparr>) sb)"
    using b2 unfolding safeRun2_def g[symmetric] Let_def
    by (simp add: set_guard_def call_plain)
  have r1: "safeRun (call_cancel (Suc n)) ba hs s =
           Some (Inr (CHandle g),
             if g_closed (guards sa g)
             then (set_guard g (\<lambda>v. v\<lparr>g_onClose := plain_cancel cs cf kl', g_cancel := CNoop\<rparr>) sa)
                    \<lparr>log := log sa @ [Cleanup kl']\<rparr>
             else set_guard g (\<lambda>v. v\<lparr>g_cancel := or_noop (map_option (plain_cancel cs cf) kc), g_onClose := plain_cancel cs cf kl'\<rparr>) sa)"
    using b1 unfolding safeRun_def g[symmetric] Let_def
    by (simp add: set_guard_def call_plain call_plain_cancel)
  have c2: "g_closed (guards sb g) \<and> g_close (guards sb g) = CNoop \<longrightarrow>
           (\<exists>s4. safeRun2 (call_cancel (Suc n)) bb hs s = Some (Inr (CHandle g), s4) \<and>
                 log s4 = log sb @ cleanup_log kl \<and>
                 call_cancel (Suc (Suc m)) (CHandle g) s4 = Some (Inr (), s4))"
    unfolding r2 by (simp add: set_guard_def)
  have c1: "g_closed (guards sa g) \<and> g_close (guards sa g) = CNoop \<longrightarrow>
           (\<exists>s4. safeRun (call_cancel (Suc n)) ba hs s = Some (Inr (CHandle g), s4) \<and>
                 log s4 = log sa @ [Cleanup kl'] \<and>
                 call_cancel (Suc (Suc m)) (CHandle g) s4 = Some (Inr (), s4))"
    unfolding r1 by (simp add: set_guard_def)
  from r2 r1 c2 c1 show ?thesis by (intro conjI)
qed

theorem guard_return_record_witness:
  "(case safeRun2 (call_cancel (Suc (Suc (Suc 0))))
          (\<lambda>su fa ca st. and_then (call_handler (Suc (Suc (Suc 0))) su (VStr ''v'') st)
             (\<lambda>_ st1. Some (Inr \<lparr>onCancel = map_option (plain_cancel HNoop HNoop) (Some 1),
                                   onClose = map_option (plain_cancel HNoop HNoop) (Some 2)\<rparr>, st1)))
          \<lparr>success = HUser OnSuccess returns, failure = HUser OnFailure returns, catch = None\<rparr> init of
      Some (Inr c, s4) \<Rightarrow>
        log s4 = [Fired OnSuccess (VStr ''v''), Cleanup 2] \<and>
        call_cancel (Suc (Suc 0)) c s4 = Some (Inr (), s4)
    | _ \<Rightarrow> False) \<and>
   (case safeRun (call_cancel (Suc (Suc (Suc 0))))
          (\<lambda>su fa st. and_then (call_handler (Suc (Suc (Suc 0))) fa (VStr ''e'') st)
             (\<lambda>_ st1. Some (Inr (RetRecord (map_option (plain_cancel HNoop HNoop) (Some 1)) (plain_cancel HNoop HNoop 5)), st1)))
          \<lparr>success = HUser OnSuccess returns, failure = HUser OnFailure returns, catch = None\<rparr> init of
      Some (Inr c, s4) \<Rightarrow>
        log s4 = [Fired OnFailure (VStr ''e''), Cleanup 5] \<and>
        call_cancel (Suc (Suc 0)) c s4 = Some (Inr (), s4)
    | _ \<Rightarrow> False)"
proof -
  let ?hs = "\<lparr>success = HUser OnSuccess returns, failure = HUser OnFailure returns, catch = None\<rparr>"
  let ?b2 = "\<lambda>su fa (ca :: handler option) st. and_then (call_handler (Suc (Suc (Suc 0))) su (VStr ''v'') st)
             (\<lambda>_ st1. Some (Inr \<lparr>onCancel = map_option (plain_cancel HNoop HNoop) (Some 1),
                                   onClose = map_option (plain_cancel HNoop HNoop) (Some 2)\<rparr>, st1))"
  let ?b1 = "\<lambda>su fa st. and_then (call_handler (Suc (Suc (Suc 0))) fa (VStr ''e'') st)
             (\<lambda>_ st1. Some (Inr (RetRecord (map_option (plain_cancel HNoop HNoop) (Some 1)) (plain_cancel HNoop HNoop 5)), st1))"
  have "case call_handler (Suc (Suc (Suc 0))) (HSucceed 0) (VStr ''v'') (new_guard ?hs (CClose2 0) init) of
      Some (Inr u, s2) \<Rightarrow> g_closed (guards s2 0) \<and>
         (case g_close (guards s2 0) of CNoop \<Rightarrow> True | _ \<Rightarrow> False) \<and>
         log s2 = [Fired OnSuccess (VStr ''v'')]
    | _ \<Rightarrow> False"
    by code_simp
  from defined_return[where P="\<lambda>s2. g_closed (guards s2 0) \<and>
         (case g_close (guards s2 0) of CNoop \<Rightarrow> True | _ \<Rightarrow> False) \<and>
         log s2 = [Fired OnSuccess (VStr ''v'')]", OF this]
  obtain s2 where
    c2: "call_handler (Suc (Suc (Suc 0))) (HSucceed 0) (VStr ''v'') (new_guard ?hs (CClose2 0) init) =
         Some (Inr (), s2)"
    and f2: "g_closed (guards s2 0)" "g_close (guards s2 0) = CNoop"
      "log s2 = [Fired OnSuccess (VStr ''v'')]"
    by (auto dest: is_noop)
  have "case call_handler (Suc (Suc (Suc 0))) (HFail 0) (VStr ''e'') (new_guard ?hs (CClose 0) init) of
      Some (Inr u, s1) \<Rightarrow> g_closed (guards s1 0) \<and>
         (case g_close (guards s1 0) of CNoop \<Rightarrow> True | _ \<Rightarrow> False) \<and>
         log s1 = [Fired OnFailure (VStr ''e'')]
    | _ \<Rightarrow> False"
    by code_simp
  from defined_return[where P="\<lambda>s1. g_closed (guards s1 0) \<and>
         (case g_close (guards s1 0) of CNoop \<Rightarrow> True | _ \<Rightarrow> False) \<and>
         log s1 = [Fired OnFailure (VStr ''e'')]", OF this]
  obtain s1 where
    c1: "call_handler (Suc (Suc (Suc 0))) (HFail 0) (VStr ''e'') (new_guard ?hs (CClose 0) init) =
         Some (Inr (), s1)"
    and f1: "g_closed (guards s1 0)" "g_close (guards s1 0) = CNoop"
      "log s1 = [Fired OnFailure (VStr ''e'')]"
    by (auto dest: is_noop)
  have g: "0 = nguards init" by (simp add: init_def)
  have b2: "?b2 (HSucceed 0) (HFail 0) (map_option (\<lambda>_. HCatch 0) (catch ?hs))
               (new_guard ?hs (CClose2 0) init) =
             Some (Inr \<lparr>onCancel = map_option (plain_cancel HNoop HNoop) (Some 1), onClose = map_option (plain_cancel HNoop HNoop) (Some 2)\<rparr>, s2)"
    using c2 by simp
  have b1: "?b1 (HSucceed 0) (HFail 0) (new_guard ?hs (CClose 0) init) =
             Some (Inr (RetRecord (map_option (plain_cancel HNoop HNoop) (Some 1)) (plain_cancel HNoop HNoop 5)), s1)"
    using c1 by simp
  note inst = guard_return_record[where bb="?b2" and ba="?b1" and hs="?hs" and s=init and g=0
      and n="Suc (Suc 0)" and m=0 and cs=HNoop and cf=HNoop, OF g b2 b1]
  from inst f2
  obtain s4 where a: "safeRun2 (call_cancel (Suc (Suc (Suc 0)))) ?b2 ?hs init = Some (Inr (CHandle 0), s4)"
    "log s4 = [Fired OnSuccess (VStr ''v''), Cleanup 2]"
    "call_cancel (Suc (Suc 0)) (CHandle 0) s4 = Some (Inr (), s4)"
    by (auto simp: cleanup_log_def)
  from inst f1
  obtain s5 where b: "safeRun (call_cancel (Suc (Suc (Suc 0)))) ?b1 ?hs init = Some (Inr (CHandle 0), s5)"
    "log s5 = [Fired OnFailure (VStr ''e''), Cleanup 5]"
    "call_cancel (Suc (Suc 0)) (CHandle 0) s5 = Some (Inr (), s5)"
    by auto
  show ?thesis
    by (simp only: a b option.case sum.case prod.case)
qed

subsection \<open>C8: a failure with no failure handler\<close>



subsection \<open>C9: cancelling twice, and cancelling after settlement\<close>




subsection \<open>C10: Map and MapRejected drop the catch handler\<close>

text \<open>
  Claim C10: when a \<^verbatim>\<open>Map\<close> or \<^verbatim>\<open>MapRejected\<close> task is run, whatever its child, with
  callbacks of the caller that may include a catch callback, the catch callback is never
  called, whatever happens afterwards; and an exception thrown by the continuation of a
  \<^verbatim>\<open>Chain\<close> below a \<^verbatim>\<open>Map\<close> is thrown out of \<^verbatim>\<open>run\<close>, whatever the handlers.
\<close>

theorem map_drops_catch:
  assumes "callbacks h" and "t' = Map_t t fn \<or> t' = MapRejected t fn"
    and "session n t' h es = Some s"
  shows "fires defects s = 0 \<and>
         map_option fst (run (Suc (Suc (Suc (Suc (Suc (Suc (Suc m)))))))
            (Map_t (Chain (Of v) (\<lambda>x. Inl e)) fn') h0 s0) = Some (Inl e)"
  using session_quiet[OF map_quiet[OF assms(1,2) mute_init(1)] assms(3)] nested_throw
  by (simp add: fires_fired)

theorem map_drops_catch_witness:
  "callbacks (Loose (Some (HUser OnSuccess returns)) (Some (HUser OnFailure returns)) (Some (HUser OnCatch returns))) \<and>
   (case session 9 (Map_t (Chain (Of (VStr ''1'')) (\<lambda>x. Inl (VErr ''boom''))) Inr)
           (Loose (Some (HUser OnSuccess returns)) (Some (HUser OnFailure returns)) (Some (HUser OnCatch returns))) []
    of None \<Rightarrow> False
     | Some s \<Rightarrow> fires defects s = 0 \<and> log s = [Uncaught (VErr ''boom'')]) \<and>
   map_option log (session 9 (Chain (Of (VStr ''1'')) (\<lambda>x. Inl (VErr ''boom'')))
           (Loose (Some (HUser OnSuccess returns)) (Some (HUser OnFailure returns)) (Some (HUser OnCatch returns))) []) =
     Some [Fired OnCatch (VErr ''boom'')]"
proof -
  let ?h = "Loose (Some (HUser OnSuccess returns)) (Some (HUser OnFailure returns)) (Some (HUser OnCatch returns))"
  let ?t = "Map_t (Chain (Of (VStr ''1'')) (\<lambda>x. Inl (VErr ''boom''))) Inr"
  have "case session 9 ?t ?h [] of None \<Rightarrow> False | Some s \<Rightarrow> log s = [Uncaught (VErr ''boom'')]"
    by code_simp
  then obtain s where s: "session 9 ?t ?h [] = Some s" "log s = [Uncaught (VErr ''boom'')]"
    by (cases "session 9 ?t ?h []") auto
  have c: "callbacks ?h" by simp
  have n: "map_option log (session 9 (Chain (Of (VStr ''1'')) (\<lambda>x. Inl (VErr ''boom''))) ?h []) =
     Some [Fired OnCatch (VErr ''boom'')]"
    by code_simp
  from map_drops_catch[OF c _ s(1), of "Chain (Of (VStr ''1'')) (\<lambda>x. Inl (VErr ''boom''))" Inr]
  have "fires defects s = 0" by simp
  then show ?thesis using s c n by simp
qed

end
